theory Spec2Isabelle
  imports Main "HOL-Library.Sublist" "HOL-Library.AList"
begin

section \<open>JavaScript strings\<close>

text \<open>
  A JavaScript string is a sequence of UTF-16 code units. The model uses \<open>string\<close>
  (a list of \<open>char\<close>), each \<open>char\<close> standing for one code unit below 256; every
  token of the program (\<open>:\<close>, \<open>,\<close>, \<open>{\<close>, \<open>}\<close>, \<open>~\<close>, \<open>+\<close>, \<open>-\<close>)
  lies in that range. The functions below are the built-in string methods the source calls.
\<close>

text \<open>
  White space as \<open>String.prototype.trim\<close> and the regular expression class \<open>\s\<close>
  see it (WhiteSpace and LineTerminator): TAB, LF, VT, FF, CR, SP, NBSP.
\<close>

definition is_space :: "char \<Rightarrow> bool" where
  "is_space c \<longleftrightarrow>
     c = CHR 0x09 \<or> c = CHR 0x0A \<or> c = CHR 0x0B \<or> c = CHR 0x0C \<or> c = CHR 0x0D \<or>
     c = CHR 0x20 \<or> c = CHR 0xA0"

text \<open>A line terminator: what the regular expression atom \<open>.\<close> does not match.\<close>

definition is_line_terminator :: "char \<Rightarrow> bool" where
  "is_line_terminator c \<longleftrightarrow> c = CHR 0x0A \<or> c = CHR 0x0D"

definition trim :: "string \<Rightarrow> string" where
  "trim s = rev (dropWhile is_space (rev (dropWhile is_space s)))"

text \<open>
  \<open>find_sub pat s\<close> is the least position at which \<open>pat\<close> occurs in \<open>s\<close>;
  the empty pattern occurs at position 0 of every string.
\<close>

primrec find_sub :: "string \<Rightarrow> string \<Rightarrow> nat option" where
  "find_sub pat [] = (if pat = [] then Some 0 else None)"
| "find_sub pat (c # cs) =
     (if prefix pat (c # cs) then Some 0 else map_option Suc (find_sub pat cs))"

text \<open>\<open>s.indexOf(pat)\<close>: the position of the first occurrence, or -1.\<close>

definition indexOf :: "string \<Rightarrow> string \<Rightarrow> int" where
  "indexOf s pat = (case find_sub pat s of None \<Rightarrow> - 1 | Some i \<Rightarrow> int i)"

text \<open>
  The replacement text of \<open>String.prototype.replace\<close> (GetSubstitution) for a string
  pattern, which has no capture groups: \<open>$$\<close> stands for a dollar sign, \<open>$&\<close> for the
  matched text, \<open>$`\<close> for the text before the match and \<open>$'\<close> for the text after it;
  every other character, a dollar sign before anything else included, stands for itself.
\<close>

fun getSubstitution :: "string \<Rightarrow> string \<Rightarrow> string \<Rightarrow> string \<Rightarrow> string" where
  "getSubstitution matched pre post (c # d # r) =
     (if c = CHR ''$'' \<and> d = CHR ''$'' then CHR ''$'' # getSubstitution matched pre post r
      else if c = CHR ''$'' \<and> d = CHR ''&'' then matched @ getSubstitution matched pre post r
      else if c = CHR ''$'' \<and> d = CHR 0x60 then pre @ getSubstitution matched pre post r
      else if c = CHR ''$'' \<and> d = CHR 0x27 then post @ getSubstitution matched pre post r
      else c # getSubstitution matched pre post (d # r))"
| "getSubstitution matched pre post r = r"

text \<open>
  \<open>s.replace(pat, repl)\<close> with a string pattern: the first occurrence only, and the
  string itself when there is none.
\<close>

definition replace :: "string \<Rightarrow> string \<Rightarrow> string \<Rightarrow> string" where
  "replace s pat repl =
     (case find_sub pat s of
        None \<Rightarrow> s
      | Some i \<Rightarrow>
          take i s
          @ getSubstitution pat (take i s) (drop (i + length pat) s) repl
          @ drop (i + length pat) s)"

text \<open>\<open>s.split(sep)\<close> for a separator of one character; the result is never empty.\<close>

fun split_on :: "char \<Rightarrow> string \<Rightarrow> string list" where
  "split_on sep [] = [[]]"
| "split_on sep (c # cs) =
     (if c = sep then [] # split_on sep cs
      else (c # hd (split_on sep cs)) # tl (split_on sep cs))"

text \<open>\<open>s.charAt(n)\<close>: the string of the one character at \<open>n\<close>, empty out of range.\<close>

definition charAt :: "string \<Rightarrow> nat \<Rightarrow> string" where
  "charAt s n = take 1 (drop n s)"

text \<open>
  \<open>s.slice(a, b)\<close>: a negative position counts from the end, both are clamped to the
  string, and the result is empty when they cross. \<open>s.slice(a)\<close> runs to the end.
\<close>

definition slice :: "string \<Rightarrow> int \<Rightarrow> int \<Rightarrow> string" where
  "slice s a b =
     (let n = int (length s);
          from = (if a < 0 then max (n + a) 0 else min a n);
          to = (if b < 0 then max (n + b) 0 else min b n)
      in take (nat (to - from)) (drop (nat from) s))"

definition slice_from :: "string \<Rightarrow> int \<Rightarrow> string" where
  "slice_from s a = slice s a (int (length s))"

section \<open>Tokens\<close>

definition FUN_COMPOSITION :: char where "FUN_COMPOSITION = CHR '':''"
definition CLAUSE_DELIMITER :: char where "CLAUSE_DELIMITER = CHR '',''"
definition CLUSTER_BEGIN :: char where "CLUSTER_BEGIN = CHR ''{''"
definition CLUSTER_CLOSE :: char where "CLUSTER_CLOSE = CHR ''}''"
definition CLUSTER_OP_INNER :: char where "CLUSTER_OP_INNER = CHR ''~''"
definition CLUSTER_OP_UNION :: char where "CLUSTER_OP_UNION = CHR ''+''"
definition CLUSTER_OP_DIFFS :: char where "CLUSTER_OP_DIFFS = CHR ''-''"

text \<open>What the source throws: \<open>new Error(message)\<close>, or the engine's \<open>TypeError\<close>.\<close>

datatype error = Error string | TypeError

section \<open>QueryBuilder\<close>

text \<open>
  A predicate is a function from a row to a truth value; a clause factory builds one from
  the operand text. \<open>clauses\<close> lists the entries of the object in the order of
  \<open>Object.entries\<close>. The registry \<open>support\<close> is read only under keys of at most two
  characters, so it is a finite map from keys to factories.
\<close>

type_synonym 't Predicate = "'t \<Rightarrow> bool"

type_synonym 't QueryableClause = "string \<Rightarrow> 't Predicate"

record 't Query =
  text_q :: string
  sign_q :: string
  test_q :: "'t Predicate list"

record 't Queryable =
  header :: string
  clauses :: "(string \<times> 't QueryableClause) list"

record 't QueryBuilder =
  headers :: "string set"
  support :: "string \<rightharpoonup> 't QueryableClause"

definition new_QueryBuilder :: "'t QueryBuilder" where
  "new_QueryBuilder = \<lparr>headers = {}, support = Map.empty\<rparr>"

definition register :: "'t Queryable \<Rightarrow> 't QueryBuilder \<Rightarrow> 't QueryBuilder" where
  "register q qb =
     \<lparr>headers = insert (header q) (headers qb),
      support = foldl (\<lambda>s (op, fn). s(header q @ op \<mapsto> fn)) (support qb) (clauses q)\<rparr>"

text \<open>The registry key \<open>head + func\<close> and the operand \<open>tail\<close> that \<open>parse\<close> computes.\<close>

definition parse_head :: "string \<Rightarrow> string" where
  "parse_head input = charAt (trim (trim input)) 0"

definition parse_func :: "string \<Rightarrow> string" where
  "parse_func input = charAt (trim (slice_from (trim input) 1)) 0"

definition parse_tail :: "string \<Rightarrow> string" where
  "parse_tail input =
     (let expr = trim input
      in trim (slice_from expr (indexOf expr (parse_func input) + 1)))"

definition parse :: "'t QueryBuilder \<Rightarrow> string \<Rightarrow> error + 't Predicate" where
  \<open>parse qb input =
     (case support qb (parse_head input @ parse_func input) of
        Some call \<Rightarrow> Inr (call (parse_tail input))
      | None \<Rightarrow> Inl (Error (''unexpected "'' @ input @ ''"'')))\<close>

text \<open>\<open>clauses.map(parse)\<close>: the first clause that throws ends the map.\<close>

fun parse_all :: "'t QueryBuilder \<Rightarrow> string list \<Rightarrow> error + 't Predicate list" where
  "parse_all qb [] = Inr []"
| "parse_all qb (c # cs) =
     (case parse qb c of
        Inl e \<Rightarrow> Inl e
      | Inr p \<Rightarrow> (case parse_all qb cs of Inl e \<Rightarrow> Inl e | Inr ps \<Rightarrow> Inr (p # ps)))"

text \<open>
  The grammar \<open>/([~\+\-]\s*\{.+?\})/g\<close>. \<open>lazy_close s\<close> is the length of the shortest
  run of characters other than line terminators that ends with the first \<open>}\<close> of \<open>s\<close>
  (the lazy \<open>.*?\}\<close>). \<open>match_sign c r\<close> is, for a match that starts at the character
  \<open>c\<close> followed by \<open>r\<close>, the number of characters of \<open>r\<close> in it: \<open>c\<close> is a sign, and
  \<open>r\<close> is white space, \<open>{\<close>, one character that is not a line terminator, and then
  \<open>lazy_close\<close>.
\<close>

fun lazy_close :: "string \<Rightarrow> nat option" where
  "lazy_close [] = None"
| "lazy_close (c # cs) =
     (if c = CLUSTER_CLOSE then Some 1
      else if is_line_terminator c then None
      else map_option Suc (lazy_close cs))"

definition is_sign :: "char \<Rightarrow> bool" where
  "is_sign c \<longleftrightarrow> c = CLUSTER_OP_INNER \<or> c = CLUSTER_OP_UNION \<or> c = CLUSTER_OP_DIFFS"

definition match_sign :: "char \<Rightarrow> string \<Rightarrow> nat option" where
  "match_sign c r =
     (if is_sign c then
        (case dropWhile is_space r of
           b # d # r' \<Rightarrow>
             if b = CLUSTER_BEGIN \<and> \<not> is_line_terminator d then
               map_option (\<lambda>n. length (takeWhile is_space r) + 2 + n) (lazy_close r')
             else None
         | _ \<Rightarrow> None)
      else None)"

text \<open>
  The \<open>while ((e = lexic.exec(input)) !== null)\<close> loop: the matches \<open>e[0]\<close> from left
  to right, each search starting where the match before it ended.
\<close>

fun exec_all :: "string \<Rightarrow> string list" where
  "exec_all [] = []"
| "exec_all (c # cs) =
     (case match_sign c cs of
        Some n \<Rightarrow> (c # take n cs) # exec_all (drop n cs)
      | None \<Rightarrow> exec_all cs)"

text \<open>
  One cluster of \<open>scan\<close>: the body of the loop. The result is \<open>None\<close> when nothing is
  yielded, the query when the clauses parse, and the error that \<open>parse\<close> throws otherwise.
\<close>

definition scan_cluster :: "'t QueryBuilder \<Rightarrow> string \<Rightarrow> (error + 't Query) option" where
  "scan_cluster qb e0 =
     (let begin = indexOf e0 [CLUSTER_BEGIN];
          close = indexOf e0 [CLUSTER_CLOSE];
          v = trim e0
      in if length v > 0 then
           Some (case parse_all qb (split_on CLAUSE_DELIMITER (slice v (begin + 1) close)) of
                   Inl err \<Rightarrow> Inl err
                 | Inr ps \<Rightarrow> Inr \<lparr>text_q = v, sign_q = charAt v 0, test_q = ps\<rparr>)
         else None)"

text \<open>
  The generator as the list of what its successive \<open>next()\<close> calls give: a query, or the
  error thrown; a generator that has thrown is finished, so the list ends at the first
  error.
\<close>

fun scan_clusters :: "'t QueryBuilder \<Rightarrow> string list \<Rightarrow> (error + 't Query) list" where
  "scan_clusters qb [] = []"
| "scan_clusters qb (e0 # es) =
     (case scan_cluster qb e0 of
        None \<Rightarrow> scan_clusters qb es
      | Some (Inl err) \<Rightarrow> [Inl err]
      | Some (Inr q) \<Rightarrow> Inr q # scan_clusters qb es)"

definition scan :: "'t QueryBuilder \<Rightarrow> string \<Rightarrow> (error + 't Query) list" where
  "scan qb input =
     (let input' = (if charAt input 0 = [CLUSTER_BEGIN] then CLUSTER_OP_INNER # input else input)
      in scan_clusters qb (exec_all input'))"

section \<open>Objects used as dictionaries\<close>

text \<open>
  A \<open>Record<string, T>\<close> is an ordinary object: the list of its own properties in the
  order in which \<open>Object.keys\<close>, \<open>Object.entries\<close> and \<open>for ... in\<close> enumerate them,
  array indices first, in ascending order, then the other keys in the order of their
  creation. An array index is the canonical decimal numeral of a number below \<open>2^32 - 1\<close>.
\<close>

type_synonym 'a js_object = "(string \<times> 'a) list"

definition is_digit :: "char \<Rightarrow> bool" where
  "is_digit c \<longleftrightarrow> 48 \<le> (of_char c :: nat) \<and> (of_char c :: nat) \<le> 57"

definition decimal :: "string \<Rightarrow> nat" where
  "decimal s = foldl (\<lambda>n c. 10 * n + (of_char c - 48)) 0 s"

definition array_index :: "string \<Rightarrow> nat option" where
  "array_index s =
     (if s \<noteq> [] \<and> list_all is_digit s \<and> (s = ''0'' \<or> hd s \<noteq> CHR ''0'')
         \<and> decimal s < 2 ^ 32 - 1
      then Some (decimal s) else None)"

text \<open>A new array index goes before the first key that is not a smaller array index.\<close>

fun insert_index :: "nat \<Rightarrow> string \<Rightarrow> 'a \<Rightarrow> 'a js_object \<Rightarrow> 'a js_object" where
  "insert_index i k v [] = [(k, v)]"
| "insert_index i k v (p # ps) =
     (case array_index (fst p) of
        Some j \<Rightarrow> if j < i then p # insert_index i k v ps else (k, v) # p # ps
      | None \<Rightarrow> (k, v) # p # ps)"

text \<open>
  The assignment \<open>obj[k] = v\<close>: a key the object has keeps its place, a new key is placed
  as above. Assigning to \<open>__proto__\<close> sets the prototype and creates no property.
\<close>

definition obj_set :: "'a js_object \<Rightarrow> string \<Rightarrow> 'a \<Rightarrow> 'a js_object" where
  "obj_set obj k v =
     (if k = ''__proto__'' then obj
      else if map_of obj k \<noteq> None then AList.update k v obj
      else (case array_index k of
              None \<Rightarrow> obj @ [(k, v)]
            | Some i \<Rightarrow> insert_index i k v obj))"

section \<open>The dependency tree\<close>

definition isInBetweenBraces :: "string \<Rightarrow> string \<Rightarrow> bool" where
  "isInBetweenBraces txt keyword =
     (let index = indexOf txt keyword;
          start = indexOf txt [CLUSTER_BEGIN];
          close = indexOf txt [CLUSTER_CLOSE]
      in start < index \<and> index < close)"

definition isFunctionArgument :: "string \<Rightarrow> string \<Rightarrow> bool" where
  "isFunctionArgument txt keyword =
     (let pos = indexOf txt [FUN_COMPOSITION]
      in pos = - 1 \<or> indexOf txt keyword > pos)"

text \<open>
  The machine that evaluates a tree. A value of the type parameter \<open>T\<close> is \<open>'v option\<close>:
  \<open>None\<close> is \<open>undefined\<close> (the fold starts from \<open>undefined as T\<close>), and \<open>Some v\<close> is an
  object such as the interpreter's accumulator array, which is truthy. Each operation
  takes the state of the machine and either throws or returns its result with the new
  state.
\<close>

record ('v, 's) AbstractMachine =
  fold_m :: "'v option \<Rightarrow> string \<Rightarrow> nat \<Rightarrow> string list \<Rightarrow> 's \<Rightarrow> error + 'v option \<times> 's"
  read_m :: "string \<Rightarrow> 's \<Rightarrow> error + 'v option \<times> 's"
  save_m :: "string \<Rightarrow> 'v option \<Rightarrow> 's \<Rightarrow> error + 'v option \<times> 's"
  swap_m :: "string \<Rightarrow> string \<Rightarrow> 'v option \<Rightarrow> 's \<Rightarrow> error + string \<times> 's"

text \<open>
  Trees are objects that other trees refer to, and \<open>currentValue\<close> and \<open>dependencies\<close>
  are updated in place: the trees of one \<open>compile\<close> call live in a store, the list of the
  trees in the order of the program, and a reference to a tree is its position there.
  \<open>ref\<close> is \<open>None\<close> for \<open>undefined\<close> or \<open>null\<close>.
\<close>

record Tree =
  ref :: "string option"
  input :: string
  dependencies :: "nat js_object"
  currentValue :: string

type_synonym store = "Tree list"

definition new_Tree :: "string \<Rightarrow> string \<Rightarrow> string option \<Rightarrow> Tree" where
  "new_Tree v i r = \<lparr>ref = r, input = i, dependencies = [], currentValue = v\<rparr>"

definition update :: "nat \<Rightarrow> string \<Rightarrow> store \<Rightarrow> store" where
  "update t newValue h = h[t := (h ! t)\<lparr>currentValue := newValue\<rparr>]"

definition add_dependency :: "nat \<Rightarrow> string \<Rightarrow> nat \<Rightarrow> store \<Rightarrow> store" where
  "add_dependency t a depTree h =
     h[t := (h ! t)\<lparr>dependencies := obj_set (dependencies (h ! t)) a depTree\<rparr>]"

text \<open>
  \<open>Tree.expand\<close> on the tree \<open>t\<close>; \<open>expand_each\<close> is its \<open>forEach\<close> over the entries of
  \<open>deps\<close> that are still to be visited. The recursion need not end, so the first argument
  bounds the depth of the nested calls of \<open>expand\<close>, and the result is \<open>None\<close> when a
  deeper call is needed.
\<close>

fun expand :: "nat \<Rightarrow> nat js_object \<Rightarrow> nat \<Rightarrow> store \<Rightarrow> store option"
  and expand_each ::
    "nat \<Rightarrow> nat js_object \<Rightarrow> nat \<Rightarrow> (string \<times> nat) list \<Rightarrow> store \<Rightarrow> store option"
where
  "expand n deps t h = expand_each n deps t deps h"
| "expand_each n deps t [] h = Some h"
| "expand_each n deps t ((a, depTree) # rest) h =
     (if indexOf (currentValue (h ! t)) a > - 1 then
        (let h1 = add_dependency t a depTree h
         in if dependencies (h1 ! depTree) \<noteq> [] then
              (case n of
                 0 \<Rightarrow> None
               | Suc n' \<Rightarrow>
                   (case expand n' deps depTree h1 of
                      None \<Rightarrow> None
                    | Some h2 \<Rightarrow> expand_each n deps t rest h2))
            else expand_each n deps t rest h1)
      else expand_each n deps t rest h)"

text \<open>\<open>arr.reduceRight(f, init)\<close>, from the position \<open>k - 1\<close> down to 0.\<close>

fun reduceRight ::
  "('a \<Rightarrow> string \<Rightarrow> nat \<Rightarrow> string list \<Rightarrow> 's \<Rightarrow> error + 'a \<times> 's)
     \<Rightarrow> string list \<Rightarrow> nat \<Rightarrow> 'a \<Rightarrow> 's \<Rightarrow> error + 'a \<times> 's"
where
  "reduceRight f arr 0 acc s = Inr (acc, s)"
| "reduceRight f arr (Suc k) acc s =
     (case f acc (arr ! k) k arr s of
        Inl e \<Rightarrow> Inl e
      | Inr (acc', s') \<Rightarrow> reduceRight f arr k acc' s')"

definition truthy :: "string option \<Rightarrow> bool" where
  "truthy r \<longleftrightarrow> (case r of None \<Rightarrow> False | Some x \<Rightarrow> x \<noteq> [])"

text \<open>The last two statements of \<open>parseTree\<close>: the fold of the text, and the save.\<close>

definition fold_tree ::
  "('v, 's) AbstractMachine \<Rightarrow> nat \<Rightarrow> store \<Rightarrow> 's \<Rightarrow> error + 'v option \<times> 's"
where
  "fold_tree m t h s =
     (let arr = split_on FUN_COMPOSITION (currentValue (h ! t))
      in case reduceRight (fold_m m) arr (length arr) None s of
           Inl e \<Rightarrow> Inl e
         | Inr (tVal, s1) \<Rightarrow>
             (if truthy (ref (h ! t)) then save_m m (the (ref (h ! t))) tVal s1
              else Inr (tVal, s1)))"

text \<open>
  \<open>parseTree\<close> on the tree \<open>t\<close>; \<open>parse_deps\<close> is its loop over the entries of
  \<open>t.dependencies\<close> that are still to be visited. The result is \<open>None\<close> when the calls
  nest deeper than the first argument, \<open>Some (Inl e)\<close> when \<open>e\<close> is thrown, and the value
  returned with the store and the state of the machine otherwise.
\<close>

fun parseTree ::
  "nat \<Rightarrow> ('v, 's) AbstractMachine \<Rightarrow> nat \<Rightarrow> store \<Rightarrow> 's
     \<Rightarrow> (error + 'v option \<times> store \<times> 's) option"
  and parse_deps ::
  "nat \<Rightarrow> ('v, 's) AbstractMachine \<Rightarrow> nat \<Rightarrow> (string \<times> nat) list \<Rightarrow> store \<Rightarrow> 's
     \<Rightarrow> (error + store \<times> 's) option"
where
  "parseTree n m t h s =
     (case parse_deps n m t (dependencies (h ! t)) h s of
        None \<Rightarrow> None
      | Some (Inl e) \<Rightarrow> Some (Inl e)
      | Some (Inr (h1, s1)) \<Rightarrow>
          (case fold_tree m t h1 s1 of
             Inl e \<Rightarrow> Some (Inl e)
           | Inr (v, s2) \<Rightarrow> Some (Inr (v, h1, s2))))"
| "parse_deps n m t [] h s = Some (Inr (h, s))"
| "parse_deps n m t ((k, dep) # rest) h s =
     (if isFunctionArgument (currentValue (h ! t)) k \<or> isInBetweenBraces (currentValue (h ! t)) k
      then
        (case read_m m k s of
           Inl e \<Rightarrow> Some (Inl e)
         | Inr (r, s1) \<Rightarrow>
             (case (case r of
                      Some v \<Rightarrow> Some (Inr (Some v, h, s1))
                    | None \<Rightarrow> (case n of 0 \<Rightarrow> None | Suc n' \<Rightarrow> parseTree n' m dep h s1)) of
                None \<Rightarrow> None
              | Some (Inl e) \<Rightarrow> Some (Inl e)
              | Some (Inr (output, h1, s2)) \<Rightarrow>
                  (case swap_m m k (currentValue (h1 ! t)) output s2 of
                     Inl e \<Rightarrow> Some (Inl e)
                   | Inr (value0, s3) \<Rightarrow>
                       parse_deps n m t rest
                         (update t
                            (if value0 \<noteq> [] then value0
                             else replace (currentValue (h1 ! t)) k (currentValue (h1 ! dep)))
                            h1)
                         s3)))
      else parse_deps n m t rest h s)"

section \<open>Abstract\<close>

text \<open>
  A program line is \<open>[value, input, ref]\<close>: the expression text, the display key and the
  publish name. \<open>cache\<close> is a \<open>Map\<close>, which can hold \<open>undefined\<close> under a key, and
  \<open>macro\<close> an object.
\<close>

type_synonym Source = "string \<times> string \<times> string option"

record 'v Abstract =
  cache :: "string \<rightharpoonup> 'v option"
  macro :: "string js_object"
  program :: "Source list"

definition expand_line :: "string js_object \<Rightarrow> string \<Rightarrow> string" where
  "expand_line kwords line =
     foldl (\<lambda>l (k, v). if indexOf l k > - 1 then replace l k v else l) line kwords"

definition expandMacro :: "'v Abstract \<Rightarrow> 'v Abstract" where
  "expandMacro a =
     a\<lparr>program := map (\<lambda>(v, i, r). (expand_line (macro a) v, i, r)) (program a)\<rparr>"

text \<open>The first loop of \<open>scanDependencyTree\<close>: the trees, and \<open>mem\<close>.\<close>

definition scan_trees :: "Source list \<Rightarrow> store" where
  "scan_trees p = map (\<lambda>(v, i, r). new_Tree v i r) p"

fun scan_mem :: "nat \<Rightarrow> Source list \<Rightarrow> nat js_object \<Rightarrow> nat js_object" where
  "scan_mem t [] mem = mem"
| "scan_mem t ((v, i, r) # p) mem =
     scan_mem (Suc t) p (if truthy r then obj_set mem (the r) t else mem)"

fun expand_trees :: "nat \<Rightarrow> nat js_object \<Rightarrow> nat list \<Rightarrow> store \<Rightarrow> store option" where
  "expand_trees n mem [] h = Some h"
| "expand_trees n mem (t # ts) h =
     (case expand n mem t h of
        None \<Rightarrow> None
      | Some h' \<Rightarrow> expand_trees n mem ts h')"

definition scanDependencyTree :: "nat \<Rightarrow> 'v Abstract \<Rightarrow> store option" where
  "scanDependencyTree n a =
     expand_trees n (scan_mem 0 (program a) []) [0..<length (program a)]
       (scan_trees (program a))"

text \<open>The \<open>forEach\<close> of \<open>compile\<close> over the trees that are still to be evaluated.\<close>

fun compile_each ::
  "nat \<Rightarrow> ('v, 's) AbstractMachine \<Rightarrow> nat list \<Rightarrow> store \<Rightarrow> 's \<Rightarrow> 'v Abstract
     \<Rightarrow> (error + 'v Abstract \<times> 's) option"
where
  "compile_each n m [] h s a = Some (Inr (a, s))"
| "compile_each n m (t # ts) h s a =
     (case parseTree n m t h s of
        None \<Rightarrow> None
      | Some (Inl e) \<Rightarrow> Some (Inl e)
      | Some (Inr (v, h', s')) \<Rightarrow>
          compile_each n m ts h' s' (a\<lparr>cache := (cache a)(input (h' ! t) \<mapsto> v)\<rparr>))"

text \<open>
  \<open>compile\<close>: \<open>None\<close> when the calls nest deeper than \<open>n\<close>, the error when one is thrown,
  and otherwise the object and the state of the machine after the call.
\<close>

definition compile ::
  "nat \<Rightarrow> ('v, 's) AbstractMachine \<Rightarrow> 's \<Rightarrow> 'v Abstract \<Rightarrow> (error + 'v Abstract \<times> 's) option"
where
  "compile n m s a =
     (let a1 = expandMacro (a\<lparr>cache := Map.empty\<rparr>)
      in case scanDependencyTree n a1 of
           None \<Rightarrow> None
         | Some h \<Rightarrow> compile_each n m [0..<length h] h s a1)"

section \<open>The interpreter\<close>

text \<open>
  A JavaScript number is a floating point number. The model leaves the type of numbers
  open and takes what \<open>swap\<close> does with a number as parameters: \<open>toString\<close>, the test
  \<open>val > -1\<close>, and the array index that \<open>val\<close> denotes as a property key, if it denotes
  one.
\<close>

record 'n Number_ops =
  toString :: "'n \<Rightarrow> string"
  above_minus_one :: "'n \<Rightarrow> bool"
  as_index :: "'n \<Rightarrow> nat option"

datatype Solution = INDEX | TUPLE | VALUE

record 'n Tuple =
  value_t :: 'n
  index_t :: 'n

type_synonym 'n Accumulator = "'n Tuple list \<times> Solution \<times> 'n"

type_synonym 'n Misinterpret =
  "error \<times> 'n Accumulator option \<times> string \<times> string list \<times> nat"

type_synonym 'n Resolver =
  "string \<Rightarrow> 'n Accumulator option \<Rightarrow> nat \<Rightarrow> string list \<Rightarrow> error + 'n Accumulator option"

text \<open>The two variables that the closures of \<open>createInterpreter\<close> share.\<close>

record 'n Interpreter =
  errors :: "'n Misinterpret list"
  cache_i :: "string \<rightharpoonup> 'n Accumulator option"

definition new_Interpreter :: "'n Interpreter" where
  "new_Interpreter = \<lparr>errors = [], cache_i = Map.empty\<rparr>"

definition interp_fold ::
  "'n Resolver \<Rightarrow> 'n Accumulator option \<Rightarrow> string \<Rightarrow> nat \<Rightarrow> string list \<Rightarrow> 'n Interpreter
     \<Rightarrow> error + 'n Accumulator option \<times> 'n Interpreter"
where
  "interp_fold resolver acc token n inp s =
     (case resolver (trim token) acc n inp of
        Inr v \<Rightarrow> Inr (v, s)
      | Inl e \<Rightarrow> Inr (acc, s\<lparr>errors := errors s @ [(e, acc, token, inp, n)]\<rparr>))"

definition interp_read ::
  "string \<Rightarrow> 'n Interpreter \<Rightarrow> error + 'n Accumulator option \<times> 'n Interpreter"
where
  "interp_read r s = Inr (case cache_i s r of None \<Rightarrow> None | Some v \<Rightarrow> v, s)"

definition interp_save ::
  "string \<Rightarrow> 'n Accumulator option \<Rightarrow> 'n Interpreter
     \<Rightarrow> error + 'n Accumulator option \<times> 'n Interpreter"
where
  "interp_save r val s = Inr (val, s\<lparr>cache_i := (cache_i s)(r \<mapsto> val)\<rparr>)"

text \<open>
  \<open>swap\<close> takes its third argument apart as an array, which throws a \<open>TypeError\<close> on
  \<open>undefined\<close>, and so does \<open>xs[val].value\<close> when \<open>xs\<close> has no element at \<open>val\<close>.
\<close>

definition interp_swap ::
  "'n Number_ops \<Rightarrow> string \<Rightarrow> string \<Rightarrow> 'n Accumulator option \<Rightarrow> 'n Interpreter
     \<Rightarrow> error + string \<times> 'n Interpreter"
where
  "interp_swap ops r str acc s =
     (case acc of
        None \<Rightarrow> Inl TypeError
      | Some (xs, sol, val) \<Rightarrow>
          (case sol of
             VALUE \<Rightarrow> Inr (replace str r (toString ops val), s)
           | INDEX \<Rightarrow>
               (if above_minus_one ops val then
                  (case as_index ops val of
                     None \<Rightarrow> Inl TypeError
                   | Some i \<Rightarrow>
                       if i < length xs
                       then Inr (replace str r (toString ops (value_t (xs ! i))), s)
                       else Inl TypeError)
                else Inr ([], s))
           | TUPLE \<Rightarrow> Inr ([], s)))"

definition createInterpreter ::
  "'n Number_ops \<Rightarrow> 'n Resolver \<Rightarrow> ('n Accumulator, 'n Interpreter) AbstractMachine"
where
  "createInterpreter ops resolver =
     \<lparr>fold_m = interp_fold resolver, read_m = interp_read, save_m = interp_save,
      swap_m = interp_swap ops\<rparr>"

text \<open>\<open>build\<close>: the display key of a line is its text.\<close>

definition build ::
  "(string \<times> string option) list \<Rightarrow> string js_object \<Rightarrow> 'n Accumulator Abstract"
where
  "build p m = \<lparr>cache = Map.empty, macro = m, program = map (\<lambda>(v, r). (v, v, r)) p\<rparr>"

text \<open>
  The numbers that are integers, as an instance of the parameters: the decimal numeral,
  the comparison, and the index of an element.
\<close>

function show_nat :: "nat \<Rightarrow> string" where
  "show_nat n =
     (if n < 10 then [char_of (48 + n)]
      else show_nat (n div 10) @ [char_of (48 + n mod 10)])"
  by pat_completeness auto
termination
  by (relation "measure id") auto

definition int_ops :: "int Number_ops" where
  "int_ops =
     \<lparr>toString = (\<lambda>v. if v < 0 then CHR ''-'' # show_nat (nat (- v)) else show_nat (nat v)),
      above_minus_one = (\<lambda>v. v > - 1),
      as_index = (\<lambda>v. if 0 \<le> v then Some (nat v) else None)\<rparr>"

section \<open>Definitions for the statements\<close>

text \<open>A match of the grammar: a sign, and then characters the last of which is \<open>}\<close>.\<close>

definition is_match :: "string \<Rightarrow> bool" where
  "is_match e \<longleftrightarrow>
     (case e of [] \<Rightarrow> False | c # r \<Rightarrow> is_sign c \<and> r \<noteq> [] \<and> last r = CLUSTER_CLOSE)"

text \<open>
  The decomposition of a clause in the words of the specification: the header is the
  run of letters and digits at the start of the clause, the operator is the first
  character after it (white space apart), and the operand is everything after the
  operator.
\<close>

definition is_alnum :: "char \<Rightarrow> bool" where
  "is_alnum c \<longleftrightarrow>
     (48 \<le> (of_char c :: nat) \<and> (of_char c :: nat) \<le> 57) \<or>
     (65 \<le> (of_char c :: nat) \<and> (of_char c :: nat) \<le> 90) \<or>
     (97 \<le> (of_char c :: nat) \<and> (of_char c :: nat) \<le> 122)"

definition parse_spec :: "'t QueryBuilder \<Rightarrow> string \<Rightarrow> error + 't Predicate" where
  \<open>parse_spec qb inp =
     (let expr = trim inp;
          hdr = takeWhile is_alnum expr;
          rest = dropWhile is_space (dropWhile is_alnum expr);
          operator = take 1 rest;
          operand = trim (drop 1 rest)
      in case support qb (hdr @ operator) of
           Some call \<Rightarrow> Inr (call operand)
         | None \<Rightarrow> Inl (Error (''unexpected "'' @ inp @ ''"'')))\<close>

text \<open>A clause factory for the examples: the row is the operand text.\<close>

definition same_text :: "string QueryableClause" where
  "same_text c row \<longleftrightarrow> c = row"

text \<open>The test of the loop of \<open>parseTree\<close>: the dependency \<open>k\<close> is resolved.\<close>

definition resolves :: "string \<Rightarrow> string \<Rightarrow> bool" where
  "resolves txt k \<longleftrightarrow> isFunctionArgument txt k \<or> isInBetweenBraces txt k"

text \<open>
  A resolver for the examples: it puts the position and the length of its token at the
  end of the tuples of the accumulator, so that the result lists the tokens in the order
  in which they were folded.
\<close>

definition tracing :: "int Resolver" where
  "tracing tok acc n inp =
     Inr (Some ((case acc of None \<Rightarrow> [] | Some (xs, sol, val) \<Rightarrow> xs)
                  @ [\<lparr>value_t = int n, index_t = int (length tok)\<rparr>], TUPLE, 0))"




text \<open>A resolver for the examples that throws on every call.\<close>

definition throwing :: "int Resolver" where
  "throwing tok acc n inp = Inl (Error tok)"

text \<open>A program for the examples: three lines, the second and the third with a reference.\<close>

definition src1 :: "(string \<times> string option) list" where
  "src1 = [(''m: {}'', Some ''r1''), (''t: s: {r1}'', Some ''r2''), (''a: r2'', None)]"

text \<open>What \<open>parseTree\<close> leaves as it is in a store: everything but the current texts.\<close>

definition shape :: "store \<Rightarrow> (string option \<times> string \<times> nat js_object) list" where
  "shape h = map (\<lambda>x. (ref x, input x, dependencies x)) h"

text \<open>
  A ranking of the trees of a store: every dependency of a tree is a tree of the store
  of lower rank.
\<close>

definition ranked_store :: "(nat \<Rightarrow> nat) \<Rightarrow> store \<Rightarrow> bool" where
  "ranked_store rank h \<longleftrightarrow>
     (\<forall>t<length h. \<forall>(k, d)\<in>set (dependencies (h ! t)). d < length h \<and> rank d < rank t)"

text \<open>What \<open>expand\<close> leaves as it is in a store: everything but the dependencies.\<close>

definition texts :: "store \<Rightarrow> (string option \<times> string \<times> string) list" where
  "texts h = map (\<lambda>x. (ref x, input x, currentValue x)) h"

text \<open>
  The names of \<open>mem\<close> under a ranking: each stands for a tree of the store, of lower rank
  than every tree whose text it occurs in.
\<close>

definition ranked_mem :: "(nat \<Rightarrow> nat) \<Rightarrow> store \<Rightarrow> nat js_object \<Rightarrow> bool" where
  "ranked_mem rank h mem \<longleftrightarrow>
     (\<forall>(a, d)\<in>set mem. d < length h \<and>
        (\<forall>t<length h. - 1 < indexOf (currentValue (h ! t)) a \<longrightarrow> rank d < rank t))"

text \<open>
  A ranking of the lines of a program: a line whose text contains a publish name ranks
  above the line that \<open>mem\<close> holds under that name.
\<close>

definition ranked :: "(nat \<Rightarrow> nat) \<Rightarrow> Source list \<Rightarrow> bool" where
  "ranked rank p \<longleftrightarrow>
     list_all
       (\<lambda>t. list_all (\<lambda>(a, d). - 1 < indexOf (fst (p ! t)) a \<longrightarrow> rank d < rank t)
              (scan_mem 0 p []))
       [0..<length p]"

text \<open>A line that contains its own publish name.\<close>

definition self_referential :: "Source list \<Rightarrow> bool" where
  "self_referential p \<longleftrightarrow> list_ex (\<lambda>(v, i, r). truthy r \<and> - 1 < indexOf v (the r)) p"

text \<open>Two lines for the examples, each of which contains the publish name of the other.\<close>

definition mutual :: "(string \<times> string option) list" where
  "mutual = [(''b'', Some ''a''), (''a'', Some ''b'')]"

definition mutual_store :: store where
  "mutual_store =
     [\<lparr>ref = Some ''a'', input = ''b'', dependencies = [(''b'', 1)], currentValue = ''b''\<rparr>,
      \<lparr>ref = Some ''b'', input = ''a'', dependencies = [(''a'', 0)], currentValue = ''a''\<rparr>]"

section \<open>Strings and the grammar\<close>

lemmas token_defs = FUN_COMPOSITION_def CLAUSE_DELIMITER_def CLUSTER_BEGIN_def CLUSTER_CLOSE_def
  CLUSTER_OP_INNER_def CLUSTER_OP_UNION_def CLUSTER_OP_DIFFS_def

lemmas string_defs = is_space_def is_line_terminator_def trim_def indexOf_def replace_def
  charAt_def slice_def slice_from_def

lemmas query_defs = new_QueryBuilder_def register_def parse_head_def parse_func_def
  parse_tail_def parse_def is_sign_def match_sign_def scan_cluster_def scan_def

lemmas tree_defs = isInBetweenBraces_def isFunctionArgument_def new_Tree_def update_def
  add_dependency_def truthy_def fold_tree_def obj_set_def array_index_def is_digit_def decimal_def

lemmas abstract_defs = expand_line_def expandMacro_def scan_trees_def scanDependencyTree_def
  compile_def build_def

lemmas interp_defs = new_Interpreter_def interp_fold_def interp_read_def interp_save_def
  interp_swap_def createInterpreter_def int_ops_def

lemma trim_id: "s \<noteq> [] \<Longrightarrow> \<not> is_space (hd s) \<Longrightarrow> \<not> is_space (last s) \<Longrightarrow> trim s = s"
proof -
  assume a: "s \<noteq> []" "\<not> is_space (hd s)" "\<not> is_space (last s)"
  have 1: "dropWhile is_space s = s"
    using a by (cases s) auto
  have 2: "dropWhile is_space (rev s) = rev s"
    using a by (cases "rev s") (auto simp: hd_rev [symmetric])
  show ?thesis
    by (simp add: trim_def 1 2)
qed

lemma lazy_close_last:
  "lazy_close r = Some n \<Longrightarrow> 0 < n \<and> n \<le> length r \<and> r ! (n - 1) = CLUSTER_CLOSE"
proof (induction r arbitrary: n)
  case Nil
  then show ?case by simp
next
  case (Cons c r)
  show ?case
  proof (cases "c = CLUSTER_CLOSE")
    case True
    with Cons.prems show ?thesis by simp
  next
    case False
    with Cons.prems obtain k where k: "lazy_close r = Some k" "n = Suc k"
      by (auto split: if_splits)
    from Cons.IH [OF k(1)] k(2) show ?thesis
      by (cases k) auto
  qed
qed

lemma match_sign_shape:
  assumes "match_sign c cs = Some n"
  shows "is_sign c \<and> 0 < n \<and> n \<le> length cs \<and> cs ! (n - 1) = CLUSTER_CLOSE"
proof -
  from assms have sign: "is_sign c"
    by (auto simp: match_sign_def split: if_splits)
  from assms sign obtain b d r' k where
    dw: "dropWhile is_space cs = b # d # r'" and k: "lazy_close r' = Some k"
    and n: "n = length (takeWhile is_space cs) + 2 + k"
    by (auto simp: match_sign_def split: list.splits if_splits)
  have cs: "cs = takeWhile is_space cs @ b # d # r'"
    using dw takeWhile_dropWhile_id [of is_space cs] by simp
  from lazy_close_last [OF k] have kk: "0 < k" "k \<le> length r'" "r' ! (k - 1) = CLUSTER_CLOSE"
    by auto
  have len: "n \<le> length cs"
    using arg_cong [OF cs, of length] kk(2) n by simp
  have "cs ! (n - 1) = (takeWhile is_space cs @ b # d # r') ! (length (takeWhile is_space cs) + (Suc k))"
    using cs n kk(1) by simp
  also have "\<dots> = (b # d # r') ! Suc k"
    by (simp only: nth_append_length_plus)
  also have "\<dots> = r' ! (k - 1)"
    using kk(1) by (cases k) auto
  finally show ?thesis
    using sign len n kk(3) by simp
qed

lemma exec_all_matches: "list_all is_match (exec_all s)"
proof (induction s rule: exec_all.induct)
  case 1
  then show ?case by simp
next
  case (2 c cs)
  show ?case
  proof (cases "match_sign c cs")
    case None
    with 2 show ?thesis by simp
  next
    case (Some n)
    from match_sign_shape [OF Some] have "is_sign c" "0 < n" "n \<le> length cs" "cs ! (n - 1) = CLUSTER_CLOSE"
      by auto
    then have "is_match (c # take n cs)"
      by (cases cs) (auto simp: is_match_def last_conv_nth min_absorb2)
    with 2 Some show ?thesis by simp
  qed
qed

lemma is_match_trim: "is_match e \<Longrightarrow> trim e = e \<and> charAt e 0 = [hd e] \<and> e \<noteq> []"
proof -
  assume m: "is_match e"
  then obtain c r where e: "e = c # r" "is_sign c" "r \<noteq> []" "last r = CLUSTER_CLOSE"
    by (auto simp: is_match_def split: list.splits)
  have "\<not> is_space c" using e(2) by (auto simp: is_sign_def is_space_def token_defs)
  moreover have "\<not> is_space (last e)" using e by (simp add: is_space_def token_defs)
  ultimately have "trim e = e" using e(1) by (intro trim_id) auto
  then show ?thesis using e(1) by (simp add: charAt_def)
qed

lemma scan_clusters_text:
  "list_all is_match es \<Longrightarrow> scan_clusters qb es = map Inr qs \<Longrightarrow>
     map text_q qs = es \<and> map sign_q qs = map (\<lambda>e. [hd e]) es"
proof (induction es arbitrary: qs)
  case Nil
  then show ?case by simp
next
  case (Cons e es)
  from Cons.prems(1) have m: "is_match e" and ms: "list_all is_match es" by simp_all
  from is_match_trim [OF m] have t: "trim e = e" "charAt e 0 = [hd e]" "e \<noteq> []" by auto
  from Cons.prems(2) t obtain q qs' where
    q: "scan_cluster qb e = Some (Inr q)" "scan_clusters qb es = map Inr qs'" "qs = q # qs'"
    by (cases qs) (auto simp: scan_cluster_def Let_def split: option.splits sum.splits)
  from q(1) t have "text_q q = e" "sign_q q = [hd e]"
    by (auto simp: scan_cluster_def Let_def split: sum.splits)
  with Cons.IH [OF ms q(2)] q(3) show ?case by simp
qed

lemma dropWhile_snoc: "\<not> P c \<Longrightarrow> dropWhile P (xs @ [c]) = dropWhile P xs @ [c]"
  by (induction xs) auto

lemma trim_spaces_append: "list_all is_space ws \<Longrightarrow> trim (ws @ s) = trim s"
  by (simp add: trim_def dropWhile_append2 list_all_iff)

lemma trim_Cons: "\<not> is_space c \<Longrightarrow> trim (c # s) = c # rev (dropWhile is_space (rev s))"
  by (simp add: trim_def dropWhile_snoc)

lemma rtrim_Cons:
  "rev (dropWhile is_space (rev (c # s))) =
     (if list_all is_space (c # s) then [] else c # rev (dropWhile is_space (rev s)))"
  by (auto simp: dropWhile_append list_all_iff)

lemma ltrim_rtrim:
  "dropWhile is_space (rev (dropWhile is_space (rev s))) =
   rev (dropWhile is_space (rev (dropWhile is_space s)))"
proof (induction s)
  case Nil
  then show ?case by simp
next
  case (Cons c s)
  show ?case
  proof (cases "list_all is_space (c # s)")
    case True
    then have 1: "dropWhile is_space (c # s) = []"
      by (simp add: list_all_iff)
    from True have 2: "dropWhile is_space (rev (c # s)) = []"
      by (simp only: dropWhile_eq_Nil_conv set_rev list_all_iff)
    show ?thesis
      unfolding 1 2 by simp
  next
    case False
    then have r: "rev (dropWhile is_space (rev (c # s))) = c # rev (dropWhile is_space (rev s))"
      by (simp only: rtrim_Cons if_False)
    show ?thesis
    proof (cases "is_space c")
      case True
      with r Cons.IH show ?thesis by simp
    next
      case False
      with r show ?thesis by simp
    qed
  qed
qed

lemma trim_rtrim: "trim (rev (dropWhile is_space (rev s))) = trim s"
proof -
  have "trim (rev (dropWhile is_space (rev s)))
        = rev (dropWhile is_space (rev (rev (dropWhile is_space (rev (dropWhile is_space s))))))"
    by (simp only: trim_def ltrim_rtrim)
  also have "\<dots> = trim s"
    by (simp add: trim_def)
  finally show ?thesis .
qed

lemma find_sub_char:
  "c \<notin> set xs \<Longrightarrow> find_sub [c] (xs @ c # ys) = Some (length xs)"
  by (induction xs) auto

lemma slice_from_drop: "k \<le> length s \<Longrightarrow> slice_from s (int k) = drop k s"
  by (simp add: slice_from_def slice_def Let_def)

text \<open>What the parts of a clause are for the code.\<close>

lemma parse_parts:
  assumes ws1: "list_all is_space ws1" and ws2: "list_all is_space ws2"
    and h: "\<not> is_space h" and o: "\<not> is_space oc" and ho: "h \<noteq> oc"
  shows "parse_head (ws1 @ h # ws2 @ oc # rest) = [h]"
    and "parse_func (ws1 @ h # ws2 @ oc # rest) = [oc]"
    and "parse_tail (ws1 @ h # ws2 @ oc # rest) = trim rest"
proof -
  let ?R = "rev (dropWhile is_space (rev rest))"
  let ?c = "ws1 @ h # ws2 @ oc # rest"
  have "trim ?c = trim (h # ws2 @ oc # rest)"
    using ws1 by (rule trim_spaces_append)
  also have "\<dots> = h # rev (dropWhile is_space (rev rest @ oc # rev ws2))"
    using h by (simp add: trim_Cons)
  also have "dropWhile is_space (rev rest @ oc # rev ws2) = dropWhile is_space (rev rest) @ oc # rev ws2"
    using o by (auto simp: dropWhile_append)
  finally have expr: "trim ?c = h # ws2 @ oc # ?R"
    by simp
  have t2: "trim (ws2 @ oc # ?R) = oc # ?R"
  proof -
    have "trim (ws2 @ oc # ?R) = trim (oc # ?R)"
      using ws2 by (rule trim_spaces_append)
    also have "\<dots> = oc # rev (dropWhile is_space (rev ?R))"
      using o by (rule trim_Cons)
    finally show ?thesis by simp
  qed
  show hd: "parse_head ?c = [h]"
    using h by (simp add: parse_head_def expr trim_Cons charAt_def)
  have sl: "slice_from (h # ws2 @ oc # ?R) 1 = ws2 @ oc # ?R"
    using slice_from_drop [of 1 "h # ws2 @ oc # ?R"] by simp
  show fn: "parse_func ?c = [oc]"
    by (simp add: parse_func_def expr sl t2 charAt_def)
  have "oc \<notin> set (h # ws2)"
    using ho ws2 o by (auto simp: list_all_iff)
  from find_sub_char [OF this, of ?R]
  have idx: "indexOf (h # ws2 @ oc # ?R) [oc] = int (Suc (length ws2))"
    by (simp add: indexOf_def)
  have "slice_from (h # ws2 @ oc # ?R) (int (Suc (length ws2)) + 1) = ?R"
    using slice_from_drop [of "Suc (Suc (length ws2))" "h # ws2 @ oc # ?R"] by simp
  then show "parse_tail ?c = trim rest"
    by (simp add: parse_tail_def Let_def expr fn idx trim_rtrim)
qed

section \<open>The claims about QueryBuilder\<close>

text \<open>
  C6. \<open>scan\<close> puts the sign \<open>~\<close> before an input that starts with \<open>{\<close>; when no clause
  throws, it yields one query for each match of the grammar, in the order of the text,
  with the match as its text and the first character of the match as its sign.
  \<open>scan("{x = 1}")\<close> with a clause registered for \<open>x=\<close> yields the one query with sign
  \<open>~\<close>, text \<open>~{x = 1}\<close> and one predicate, and \<open>scan("{a} + {b} - {c}")\<close> yields three
  queries with the signs \<open>~\<close>, \<open>+\<close> and \<open>-\<close>.
\<close>

theorem scan_grammar:
  fixes qb :: "'t QueryBuilder"
  shows "scan qb (CLUSTER_BEGIN # r) = scan qb (CLUSTER_OP_INNER # CLUSTER_BEGIN # r)
    \<and> (scan qb inp = map Inr qs \<longrightarrow>
         map text_q qs = exec_all (if charAt inp 0 = [CLUSTER_BEGIN] then CLUSTER_OP_INNER # inp else inp)
         \<and> map sign_q qs = map (\<lambda>e. [hd e]) (exec_all (if charAt inp 0 = [CLUSTER_BEGIN] then CLUSTER_OP_INNER # inp else inp)))
    \<and> scan (register \<lparr>header = ''x'', clauses = [(''='', f)]\<rparr> new_QueryBuilder) ''{x = 1}''
        = [Inr \<lparr>text_q = ''~{x = 1}'', sign_q = ''~'', test_q = [f ''1'']\<rparr>]
    \<and> scan (register \<lparr>header = ''c'', clauses = [('''', fc)]\<rparr>
             (register \<lparr>header = ''b'', clauses = [('''', fb)]\<rparr>
               (register \<lparr>header = ''a'', clauses = [('''', fa)]\<rparr> new_QueryBuilder)))
         ''{a} + {b} - {c}''
        = [Inr \<lparr>text_q = ''~{a}'', sign_q = ''~'', test_q = [fa '''']\<rparr>,
           Inr \<lparr>text_q = ''+ {b}'', sign_q = ''+'', test_q = [fb '''']\<rparr>,
           Inr \<lparr>text_q = ''- {c}'', sign_q = ''-'', test_q = [fc '''']\<rparr>]"
proof (intro conjI impI)
  show "scan qb (CLUSTER_BEGIN # r) = scan qb (CLUSTER_OP_INNER # CLUSTER_BEGIN # r)"
    by (simp add: scan_def charAt_def token_defs)
next
  assume a: "scan qb inp = map Inr qs"
  let ?i = "if charAt inp 0 = [CLUSTER_BEGIN] then CLUSTER_OP_INNER # inp else inp"
  from a have "scan_clusters qb (exec_all ?i) = map Inr qs"
    by (simp add: scan_def Let_def)
  from scan_clusters_text [OF exec_all_matches this]
  show "map text_q qs = exec_all ?i" and "map sign_q qs = map (\<lambda>e. [hd e]) (exec_all ?i)"
    by simp_all
next
  show "scan (register \<lparr>header = ''x'', clauses = [(''='', f)]\<rparr> new_QueryBuilder) ''{x = 1}''
        = [Inr \<lparr>text_q = ''~{x = 1}'', sign_q = ''~'', test_q = [f ''1'']\<rparr>]"
    by (simp add: query_defs string_defs token_defs)
next
  show "scan (register \<lparr>header = ''c'', clauses = [('''', fc)]\<rparr>
             (register \<lparr>header = ''b'', clauses = [('''', fb)]\<rparr>
               (register \<lparr>header = ''a'', clauses = [('''', fa)]\<rparr> new_QueryBuilder)))
         ''{a} + {b} - {c}''
        = [Inr \<lparr>text_q = ''~{a}'', sign_q = ''~'', test_q = [fa '''']\<rparr>,
           Inr \<lparr>text_q = ''+ {b}'', sign_q = ''+'', test_q = [fb '''']\<rparr>,
           Inr \<lparr>text_q = ''- {c}'', sign_q = ''-'', test_q = [fc '''']\<rparr>]"
    by (simp add: query_defs string_defs token_defs)
qed


theorem scan_grammar_witness:
  "scan (register \<lparr>header = ''x'', clauses = [(''='', same_text)]\<rparr> new_QueryBuilder) ''{x = 1}''
     = map Inr [\<lparr>text_q = ''~{x = 1}'', sign_q = ''~'', test_q = [same_text ''1'']\<rparr>]
   \<and> exec_all ''~{x = 1}'' = [''~{x = 1}'']"
proof -
  let ?qb = "register \<lparr>header = ''x'', clauses = [(''='', same_text)]\<rparr> new_QueryBuilder"
  let ?q = "\<lparr>text_q = ''~{x = 1}'', sign_q = ''~'', test_q = [same_text ''1'']\<rparr>"
  have s: "scan ?qb ''{x = 1}'' = map Inr [?q]"
    by (simp add: query_defs string_defs token_defs)
  have "scan ?qb ''{x = 1}'' = map Inr [?q] \<longrightarrow>
      map text_q [?q]
        = exec_all (if charAt ''{x = 1}'' 0 = [CLUSTER_BEGIN] then CLUSTER_OP_INNER # ''{x = 1}''
                    else ''{x = 1}'')"
    using scan_grammar [of ?qb "''x = 1}''" "''{x = 1}''" "[?q]" same_text same_text same_text
        same_text]
    by blast
  with s have "map text_q [?q] = exec_all ''~{x = 1}''"
    by (simp add: charAt_def token_defs)
  with s show ?thesis
    by simp
qed

text \<open>
  C7, as the code has it. The header is the first character of the trimmed clause and
  the operator the first character after it that is not white space; when the two
  differ, the operand is the trimmed text after the operator. The predicate is the
  factory registered under header and operator, applied to the operand. The
  specification's header, a run of letters and digits, is not what \<open>parse\<close> reads: with a
  clause registered for the header \<open>ab\<close> and the operator \<open>=\<close>, \<open>parse("ab=1")\<close> throws.
\<close>

theorem parse_clause:
  fixes qb :: "'t QueryBuilder"
  assumes "list_all is_space ws1" and "list_all is_space ws2"
    and "\<not> is_space h" and "\<not> is_space oc" and "h \<noteq> oc"
  shows \<open>parse qb (ws1 @ h # ws2 @ oc # rest) =
     (case support qb [h, oc] of
        Some call \<Rightarrow> Inr (call (trim rest))
      | None \<Rightarrow> Inl (Error (''unexpected "'' @ ws1 @ h # ws2 @ oc # rest @ ''"'')))\<close>
  using parse_parts [OF assms, of rest] by (simp add: parse_def split: option.splits)

theorem parse_clause_witness:
  \<open>parse (register \<lparr>header = ''x'', clauses = [(''<'', same_text)]\<rparr> new_QueryBuilder) '' x < 42 ''
     = Inr (same_text ''42'')\<close>
  using parse_clause [of "'' ''" "'' ''" "CHR ''x''" "CHR ''<''"
      "register \<lparr>header = ''x'', clauses = [(''<'', same_text)]\<rparr> new_QueryBuilder" "'' 42 ''"]
  by (simp add: is_space_def register_def new_QueryBuilder_def trim_def)

theorem parse_header_run_counterexample:
  \<open>parse (register \<lparr>header = ''ab'', clauses = [(''='', same_text)]\<rparr> new_QueryBuilder) ''ab=1''
     = Inl (Error ''unexpected "ab=1"'')
   \<and> parse_spec (register \<lparr>header = ''ab'', clauses = [(''='', same_text)]\<rparr> new_QueryBuilder) ''ab=1''
     = Inr (same_text ''1'')\<close>
  by (simp add: query_defs string_defs parse_spec_def is_alnum_def)

text \<open>
  C8. A clause whose key \<open>head + func\<close> has no registered factory makes \<open>parse\<close> throw
  the error with the message \<open>unexpected "<the clause>"\<close>, the clause as it was given;
  the error leaves \<open>map\<close> at the first such clause, and it is what the generator of
  \<open>scan\<close> throws: \<open>scan("{z ? 1}")\<close> with nothing registered for \<open>z?\<close> throws
  \<open>unexpected "z ? 1"\<close>, and \<open>scan("{x = something} + {x > 0}")\<close> with \<open>x=\<close> registered
  and \<open>x>\<close> not yields one query and then throws \<open>unexpected "x > 0"\<close>.
\<close>

theorem parse_unregistered:
  fixes qb :: "'t QueryBuilder"
  shows \<open>(support qb (parse_head c @ parse_func c) = None \<longrightarrow>
            parse qb c = Inl (Error (''unexpected "'' @ c @ ''"'')))
    \<and> (list_all (\<lambda>x. support qb (parse_head x @ parse_func x) \<noteq> None) cs
         \<and> support qb (parse_head c @ parse_func c) = None \<longrightarrow>
            parse_all qb (cs @ c # cs') = Inl (Error (''unexpected "'' @ c @ ''"'')))
    \<and> (support qb ''z?'' = None \<longrightarrow>
            scan qb ''{z ? 1}'' = [Inl (Error ''unexpected "z ? 1"'')])
    \<and> (support qb ''x='' = Some f \<and> support qb ''x>'' = None \<longrightarrow>
            scan qb ''{x = something} + {x > 0}''
              = [Inr \<lparr>text_q = ''~{x = something}'', sign_q = ''~'', test_q = [f ''something'']\<rparr>,
                 Inl (Error ''unexpected "x > 0"'')])\<close>
proof (intro conjI impI)
  assume "support qb (parse_head c @ parse_func c) = None"
  then show \<open>parse qb c = Inl (Error (''unexpected "'' @ c @ ''"''))\<close>
    by (simp add: parse_def)
next
  assume a: "list_all (\<lambda>x. support qb (parse_head x @ parse_func x) \<noteq> None) cs
         \<and> support qb (parse_head c @ parse_func c) = None"
  then have c: \<open>parse_all qb (c # cs') = Inl (Error (''unexpected "'' @ c @ ''"''))\<close>
    by (simp add: parse_def)
  from a have "list_all (\<lambda>x. support qb (parse_head x @ parse_func x) \<noteq> None) cs" by simp
  then show \<open>parse_all qb (cs @ c # cs') = Inl (Error (''unexpected "'' @ c @ ''"''))\<close>
  proof (induction cs)
    case Nil
    show ?case using c by simp
  next
    case (Cons x cs)
    then obtain call where "support qb (parse_head x @ parse_func x) = Some call"
      by auto
    then have "parse qb x = Inr (call (parse_tail x))"
      by (simp add: parse_def)
    with Cons show ?case by simp
  qed
next
  assume "support qb ''z?'' = None"
  then show \<open>scan qb ''{z ? 1}'' = [Inl (Error ''unexpected "z ? 1"'')]\<close>
    by (simp add: query_defs string_defs token_defs)
next
  assume "support qb ''x='' = Some f \<and> support qb ''x>'' = None"
  then show \<open>scan qb ''{x = something} + {x > 0}''
              = [Inr \<lparr>text_q = ''~{x = something}'', sign_q = ''~'', test_q = [f ''something'']\<rparr>,
                 Inl (Error ''unexpected "x > 0"'')]\<close>
    by (simp add: query_defs string_defs token_defs)
qed

theorem parse_unregistered_witness:
  \<open>parse (new_QueryBuilder :: string QueryBuilder) ''z ? 1'' = Inl (Error ''unexpected "z ? 1"'')
   \<and> parse_all (new_QueryBuilder :: string QueryBuilder) [''z ? 1''] = Inl (Error ''unexpected "z ? 1"'')
   \<and> scan (new_QueryBuilder :: string QueryBuilder) ''{z ? 1}'' = [Inl (Error ''unexpected "z ? 1"'')]
   \<and> scan (register \<lparr>header = ''x'', clauses = [(''='', same_text)]\<rparr> new_QueryBuilder)
        ''{x = something} + {x > 0}''
      = [Inr \<lparr>text_q = ''~{x = something}'', sign_q = ''~'', test_q = [same_text ''something'']\<rparr>,
         Inl (Error ''unexpected "x > 0"'')]\<close>
  using parse_unregistered [of "new_QueryBuilder :: string QueryBuilder" "''z ? 1''" "[]" "[]" same_text]
    parse_unregistered [of "register \<lparr>header = ''x'', clauses = [(''='', same_text)]\<rparr> new_QueryBuilder"
       "''z ? 1''" "[]" "[]" same_text]
  by (simp add: new_QueryBuilder_def register_def)


section \<open>The claims about the tree evaluator\<close>

lemma parse_deps_skip:
  "list_all (\<lambda>(k, d). \<not> resolves (currentValue (h ! t)) k) deps \<Longrightarrow>
     parse_deps n m t deps h s = Some (Inr (h, s))"
  by (induction deps) (auto simp: resolves_def)

text \<open>
  C2. A tree none of whose dependencies is resolved, and whose text splits at \<open>:\<close> into
  \<open>f\<close>, \<open>g\<close>, \<open>x\<close>, is evaluated from right to left: \<open>x\<close> is folded first, from
  \<open>undefined\<close>, then \<open>g\<close>, then \<open>f\<close>, each with its position and the list of the
  segments, and \<open>parseTree\<close> returns the last accumulator (what \<open>save\<close> returns for it
  when the tree has a publish name). The store is left as it was.
\<close>

theorem parseTree_right_to_left:
  fixes m :: "('v, 's) AbstractMachine"
  assumes "list_all (\<lambda>(k, d). \<not> resolves (currentValue (h ! t)) k) (dependencies (h ! t))"
    and "split_on FUN_COMPOSITION (currentValue (h ! t)) = [f, g, x]"
    and "fold_m m None x 2 [f, g, x] s = Inr (a1, s1)"
    and "fold_m m a1 g 1 [f, g, x] s1 = Inr (a2, s2)"
    and "fold_m m a2 f 0 [f, g, x] s2 = Inr (a3, s3)"
  shows "parseTree n m t h s =
     Some (if truthy (ref (h ! t))
           then (case save_m m (the (ref (h ! t))) a3 s3 of
                   Inl e \<Rightarrow> Inl e
                 | Inr (v, s4) \<Rightarrow> Inr (v, h, s4))
           else Inr (a3, h, s3))"
  using assms
  by (simp add: parse_deps_skip fold_tree_def numeral_3_eq_3 numeral_2_eq_2 split: sum.splits)

theorem parseTree_right_to_left_witness:
  "parseTree 0 (createInterpreter int_ops tracing) 0 [new_Tree ''f: g: x'' ''f: g: x'' None]
     new_Interpreter
   = Some (Inr (Some ([\<lparr>value_t = 2, index_t = 1\<rparr>, \<lparr>value_t = 1, index_t = 1\<rparr>,
                       \<lparr>value_t = 0, index_t = 1\<rparr>], TUPLE, 0),
                [new_Tree ''f: g: x'' ''f: g: x'' None], new_Interpreter))"
  using parseTree_right_to_left [of "[new_Tree ''f: g: x'' ''f: g: x'' None]" 0 "''f''" "'' g''" "'' x''"
      "createInterpreter int_ops tracing" new_Interpreter
      "Some ([\<lparr>value_t = 2, index_t = 1\<rparr>], TUPLE, 0)" new_Interpreter
      "Some ([\<lparr>value_t = 2, index_t = 1\<rparr>, \<lparr>value_t = 1, index_t = 1\<rparr>], TUPLE, 0)" new_Interpreter
      "Some ([\<lparr>value_t = 2, index_t = 1\<rparr>, \<lparr>value_t = 1, index_t = 1\<rparr>,
                       \<lparr>value_t = 0, index_t = 1\<rparr>], TUPLE, 0)" new_Interpreter 0]
  by (simp add: new_Tree_def token_defs createInterpreter_def interp_fold_def tracing_def trim_def is_space_def truthy_def)


lemma find_sub_first:
  "find_sub k tx = Some i \<longleftrightarrow>
     i \<le> length tx \<and> prefix k (drop i tx) \<and> (\<forall>j<i. \<not> prefix k (drop j tx))"
proof (induction tx arbitrary: i)
  case Nil
  then show ?case by auto
next
  case (Cons c cs)
  show ?case
  proof (cases "prefix k (c # cs)")
    case True
    then show ?thesis
      by (cases i) auto
  next
    case False
    show ?thesis
    proof (cases i)
      case 0
      with False show ?thesis by simp
    next
      case (Suc i')
      have "(\<forall>j<Suc i'. \<not> prefix k (drop j (c # cs))) \<longleftrightarrow> (\<forall>j<i'. \<not> prefix k (drop j cs))"
        using False by (auto simp: less_Suc_eq_0_disj)
      with False Suc Cons.IH [of i'] show ?thesis
        by auto
    qed
  qed
qed






lemma getSubstitution_literal:
  "CHR ''$'' \<notin> set repl \<Longrightarrow> getSubstitution matched pre post repl = repl"
  by (induction matched pre post repl rule: getSubstitution.induct) auto

lemma replace_literal:
  "CHR ''$'' \<notin> set repl \<Longrightarrow> find_sub k tx = Some i \<Longrightarrow>
     replace tx k repl = take i tx @ repl @ drop (i + length k) tx"
  by (simp add: replace_def getSubstitution_literal)

lemma replace_absent: "find_sub k tx = None \<Longrightarrow> replace tx k repl = tx"
  by (simp add: replace_def)

text \<open>
  One turn of the loop of \<open>parseTree\<close> for a dependency that is resolved: the value is
  read from the machine or, when the machine has none, computed from the tree of the
  dependency; the whole text becomes what \<open>swap\<close> returns when that is not empty, and
  otherwise the text with \<open>k\<close> replaced by the current text of the dependency; the next
  dependency is looked at in the store so updated.
\<close>

lemma parse_deps_substitute:
  fixes m :: "('v, 's) AbstractMachine"
  assumes "resolves (currentValue (h ! t)) k"
    and "read_m m k s = Inr (r, s1)"
    and "(case r of Some v \<Rightarrow> Some (Inr (Some v, h, s1)) | None \<Rightarrow> parseTree n m d h s1)
           = Some (Inr (output, h1, s2))"
    and "swap_m m k (currentValue (h1 ! t)) output s2 = Inr (value0, s3)"
  shows "parse_deps (Suc n) m t ((k, d) # rest) h s =
     parse_deps (Suc n) m t rest
       (update t (if value0 \<noteq> [] then value0
                  else replace (currentValue (h1 ! t)) k (currentValue (h1 ! d))) h1) s3"
  using assms by (auto simp: resolves_def split: option.splits)

text \<open>
  C3. The replacement is made with \<open>String.prototype.replace\<close>, which does not insert
  its second argument as it stands: for the named line \<open>{price = $$}\<close>, which the
  interpreter's \<open>swap\<close> answers with the empty string, the line \<open>sum: cost\<close> becomes
  \<open>sum: {price = $}\<close>, not the text of the dependency. (With no \<open>$\<close> in the text of
  the dependency the replacement is that text: \<open>parse_deps_substitute\<close>,
  \<open>replace_literal\<close>.)
\<close>

theorem parse_deps_dollar:
  "(case scanDependencyTree 0
           (build [(''sum: cost'', None), (''{price = $$}'', Some ''cost'')] [] :: int Accumulator Abstract) of
      Some h \<Rightarrow>
        (case parseTree 1 (createInterpreter int_ops tracing) 0 h new_Interpreter of
           Some (Inr (v, h1, s1)) \<Rightarrow>
             currentValue (h1 ! 0) = ''sum: {price = $}'' \<and> currentValue (h1 ! 1) = ''{price = $$}''
         | _ \<Rightarrow> False)
    | None \<Rightarrow> False)"
  by (simp add: tree_defs abstract_defs interp_defs string_defs token_defs tracing_def upt_rec)


section \<open>The claims about compile\<close>

lemma compile_each_frame:
  "compile_each n m ts h s a = Some (Inr (a', s')) \<Longrightarrow> \<exists>c. a' = a\<lparr>cache := c\<rparr>"
proof (induction ts arbitrary: h s a)
  case Nil
  then have "a' = a\<lparr>cache := cache a\<rparr>" by simp
  then show ?case by blast
next
  case (Cons t ts)
  from Cons.prems obtain v h1 s1 where
    "compile_each n m ts h1 s1 (a\<lparr>cache := (cache a)(input (h1 ! t) \<mapsto> v)\<rparr>) = Some (Inr (a', s'))"
    by (auto split: option.splits sum.splits)
  from Cons.IH [OF this] show ?case by auto
qed

lemma compile_frame:
  assumes "compile n m s a = Some (Inr (a', s'))"
  shows "\<exists>c. a' = (expandMacro a)\<lparr>cache := c\<rparr>"
proof -
  from assms obtain h where
    "compile_each n m [0..<length h] h s (expandMacro (a\<lparr>cache := Map.empty\<rparr>)) = Some (Inr (a', s'))"
    by (auto simp: compile_def Let_def split: option.splits)
  from compile_each_frame [OF this] show ?thesis
    by (auto simp: expandMacro_def)
qed

text \<open>
  C10. When \<open>compile\<close> returns, the program holds each line with its expression text
  rewritten by the macros (for each macro in the order of the table, the first
  occurrence of the keyword, when there is one), with the display key and the publish
  name as they were, and the macro table is as it was. The rewritten program is what the
  next call of \<open>compile\<close> starts from, so a second call rewrites the texts once more.
\<close>

theorem compile_rewrites_program:
  fixes m :: "('v, 's) AbstractMachine"
  assumes "compile n m s a = Some (Inr (a', s'))"
  shows "program a' = map (\<lambda>(v, i, r). (expand_line (macro a) v, i, r)) (program a)
    \<and> macro a' = macro a
    \<and> (compile n' m' s'' a' = Some (Inr (a'', s''')) \<longrightarrow>
         program a'' =
           map (\<lambda>(v, i, r). (expand_line (macro a) (expand_line (macro a) v), i, r)) (program a)
         \<and> macro a'' = macro a)"
proof -
  from compile_frame [OF assms] obtain c where a': "a' = (expandMacro a)\<lparr>cache := c\<rparr>" ..
  then have 1: "program a' = map (\<lambda>(v, i, r). (expand_line (macro a) v, i, r)) (program a)"
    and 2: "macro a' = macro a"
    by (simp_all add: expandMacro_def)
  have 3: "program a'' =
           map (\<lambda>(v, i, r). (expand_line (macro a) (expand_line (macro a) v), i, r)) (program a)
         \<and> macro a'' = macro a"
    if "compile n' m' s'' a' = Some (Inr (a'', s'''))"
  proof -
    from compile_frame [OF that] obtain c' where "a'' = (expandMacro a')\<lparr>cache := c'\<rparr>" ..
    then show ?thesis
      by (simp add: expandMacro_def 1 2 case_prod_unfold comp_def)
  qed
  from 1 2 3 show ?thesis by blast
qed

theorem compile_rewrites_program_witness:
  "(case compile 0 (createInterpreter int_ops tracing) new_Interpreter
           \<lparr>cache = Map.empty, macro = [(''a'', ''bb'')], program = [(''a a'', ''k'', None)]\<rparr> of
      Some (Inr (a1, s1)) \<Rightarrow>
        program a1 = [(''bb a'', ''k'', None)] \<and> macro a1 = [(''a'', ''bb'')]
        \<and> (case compile 0 (createInterpreter int_ops tracing) s1 a1 of
              Some (Inr (a2, s2)) \<Rightarrow>
                program a2 = [(''bb bb'', ''k'', None)] \<and> macro a2 = [(''a'', ''bb'')]
            | _ \<Rightarrow> False)
    | _ \<Rightarrow> False)"
proof -
  let ?m = "createInterpreter int_ops tracing"
  let ?a = "\<lparr>cache = Map.empty, macro = [(''a'', ''bb'')], program = [(''a a'', ''k'', None)]\<rparr>
              :: int Accumulator Abstract"
  obtain r where r: "compile 0 ?m new_Interpreter ?a = r" by simp
  then obtain a1 s1 where 1: "compile 0 ?m new_Interpreter ?a = Some (Inr (a1, s1))"
    by (simp add: tree_defs abstract_defs interp_defs string_defs token_defs tracing_def upt_rec)
  have p1: "program a1 = [(''bb a'', ''k'', None)]" "macro a1 = [(''a'', ''bb'')]"
    using compile_rewrites_program [OF 1, of 0 ?m new_Interpreter a1 new_Interpreter]
    by (simp_all add: expand_line_def string_defs)
  obtain a2 s2 where 2: "compile 0 ?m s1 a1 = Some (Inr (a2, s2))"
    using p1
    by (simp add: tree_defs abstract_defs interp_defs string_defs token_defs tracing_def upt_rec)
  have p2: "program a2 = [(''bb bb'', ''k'', None)]" "macro a2 = [(''a'', ''bb'')]"
    using compile_rewrites_program [OF 1, of 0 ?m s1 a2 s2] 2
    by (simp_all add: expand_line_def string_defs)
  from 1 2 p1 p2 show ?thesis by simp
qed


lemma expandMacro_cache: "expandMacro (a\<lparr>cache := c\<rparr>) = (expandMacro a)\<lparr>cache := c\<rparr>"
  by (simp add: expandMacro_def)

lemma scanDependencyTree_cache:
  "scanDependencyTree n (a\<lparr>cache := c\<rparr>) = scanDependencyTree n a"
  by (simp add: scanDependencyTree_def)

text \<open>
  C9, as the code has it. \<open>compile\<close> rewrites the program with the macros on every
  call, and the trees are evaluated with whatever the machine remembers. A second call
  gives the cache of the first when macro expansion changes nothing in the program that
  the first call left, and the machine starts the second call in the state in which it
  started the first (a new interpreter over the same resolver): then the second call
  returns what the first returned, whatever the cache held before. With a macro that
  applies again, here \<open>a\<close> for \<open>bb\<close> on the line \<open>a a\<close>, the two caches differ.
\<close>

theorem compile_twice:
  fixes m :: "('v, 's) AbstractMachine"
  assumes "compile n m s a = Some (Inr (a1, s1))"
    and "expandMacro a1 = a1"
  shows "compile n m s a1 = Some (Inr (a1, s1))"
proof -
  let ?a0 = "expandMacro (a\<lparr>cache := Map.empty\<rparr>)"
  from compile_frame [OF assms(1)] obtain c where a1: "a1 = (expandMacro a)\<lparr>cache := c\<rparr>" ..
  have "expandMacro (a1\<lparr>cache := Map.empty\<rparr>) = a1\<lparr>cache := Map.empty\<rparr>"
    using assms(2) by (simp add: expandMacro_cache)
  also have "\<dots> = ?a0"
    by (simp add: a1 expandMacro_cache)
  finally have "compile n m s a1 = compile n m s a"
    by (simp add: compile_def)
  with assms(1) show ?thesis by simp
qed

theorem compile_twice_witness:
  "(case compile 1 (createInterpreter int_ops tracing) new_Interpreter (build src1 [(''day'', ''1'')]) of
      Some (Inr (a1, s1)) \<Rightarrow>
        compile 1 (createInterpreter int_ops tracing) new_Interpreter a1 = Some (Inr (a1, s1))
    | _ \<Rightarrow> False)"
proof -
  let ?m = "createInterpreter int_ops tracing"
  obtain a1 s1 where 1: "compile 1 ?m new_Interpreter (build src1 [(''day'', ''1'')]) = Some (Inr (a1, s1))"
    by (simp add: src1_def tree_defs abstract_defs interp_defs string_defs token_defs tracing_def upt_rec)
  from compile_frame [OF 1] obtain c where "a1 = (expandMacro (build src1 [(''day'', ''1'')]))\<lparr>cache := c\<rparr>" ..
  then have "expandMacro a1 = a1"
    by (simp add: src1_def expandMacro_def build_def expand_line_def string_defs)
  from compile_twice [OF 1 this] 1 show ?thesis
    by simp
qed

theorem compile_twice_counterexample:
  "(case compile 0 (createInterpreter int_ops tracing) new_Interpreter
           \<lparr>cache = Map.empty, macro = [(''a'', ''bb'')], program = [(''a a'', ''k'', None)]\<rparr> of
      Some (Inr (a1, s1)) \<Rightarrow>
        cache a1 ''k'' = Some (Some ([\<lparr>value_t = 0, index_t = 4\<rparr>], TUPLE, 0))
        \<and> (case compile 0 (createInterpreter int_ops tracing) s1 a1 of
              Some (Inr (a2, s2)) \<Rightarrow>
                cache a2 ''k'' = Some (Some ([\<lparr>value_t = 0, index_t = 5\<rparr>], TUPLE, 0))
            | _ \<Rightarrow> False)
        \<and> (case compile 0 (createInterpreter int_ops tracing) new_Interpreter a1 of
              Some (Inr (a2, s2)) \<Rightarrow>
                cache a2 ''k'' = Some (Some ([\<lparr>value_t = 0, index_t = 5\<rparr>], TUPLE, 0))
            | _ \<Rightarrow> False)
    | _ \<Rightarrow> False)"
  by (simp add: tree_defs abstract_defs interp_defs string_defs token_defs tracing_def upt_rec)


section \<open>The depth bound\<close>

text \<open>A result does not depend on the depth bound under which it is reached.\<close>

lemma parse_mono:
  fixes m :: "('v, 's) AbstractMachine"
  shows "parseTree n m t h s = Some r \<Longrightarrow> n \<le> n' \<Longrightarrow> parseTree n' m t h s = Some r"
    and "parse_deps n m t deps h s = Some q \<Longrightarrow> n \<le> n' \<Longrightarrow> parse_deps n' m t deps h s = Some q"
proof (induction n m t h s and n m t deps h s arbitrary: r n' and q n'
    rule: parseTree_parse_deps.induct)
  case (1 n m t h s)
  from "1.prems"(1) obtain q where q: "parse_deps n m t (dependencies (h ! t)) h s = Some q"
    by (auto split: option.splits)
  from "1.IH" [OF q "1.prems"(2)] q "1.prems"(1) show ?case
    by simp
next
  case (2 n m t h s)
  then show ?case by simp
next
  case (3 n m t k dep rest h s)
  show ?case
  proof (cases "isFunctionArgument (currentValue (h ! t)) k \<or>
        isInBetweenBraces (currentValue (h ! t)) k")
    case False
    with "3.prems" "3.IH"(3) [OF False _ "3.prems"(2), of q] show ?thesis
      by simp
  next
    case gate: True
    show ?thesis
    proof (cases "read_m m k s")
      case (Inl e)
      with gate "3.prems"(1) show ?thesis by simp
    next
      case (Inr b)
      then obtain x s1 where b: "b = (x, s1)" by (cases b) auto
      let ?child = "\<lambda>n. case x of
             Some v \<Rightarrow> Some (Inr (Some v, h, s1))
           | None \<Rightarrow> (case n of 0 \<Rightarrow> None | Suc n0 \<Rightarrow> parseTree n0 m dep h s1)"
      from "3.prems"(1) gate Inr b obtain c where c: "?child n = Some c"
        by (auto split: option.splits)
      have c': "?child n' = Some c"
      proof (cases x)
        case (Some v)
        with c show ?thesis by simp
      next
        case None
        with c obtain n0 where n: "n = Suc n0" and p: "parseTree n0 m dep h s1 = Some c"
          by (cases n) auto
        from n "3.prems"(2) obtain n0' where n': "n' = Suc n0'" and le: "n0 \<le> n0'"
          by (cases n') auto
        from "3.IH"(1) [OF gate Inr b [symmetric] None n p le] None n' show ?thesis
          by simp
      qed
      show ?thesis
      proof (cases c)
        case (Inl e)
        with gate Inr b c c' "3.prems"(1) show ?thesis by simp
      next
        case inr: (Inr w)
        then obtain out h1 s2 where w: "w = (out, (h1, s2))" by (cases w) auto
        show ?thesis
        proof (cases "swap_m m k (currentValue (h1 ! t)) out s2")
          case (Inl e)
          with gate Inr b c c' inr w "3.prems"(1) show ?thesis by simp
        next
          case swap: (Inr u)
          then obtain value0 s3 where u: "u = (value0, s3)" by (cases u) auto
          let ?h2 = "update t (if value0 \<noteq> [] then value0
                else replace (currentValue (h1 ! t)) k (currentValue (h1 ! dep))) h1"
          from "3.prems"(1) gate Inr b c inr w swap u
          have "parse_deps n m t rest ?h2 s3 = Some q" by simp
          from "3.IH"(2) [OF gate Inr b [symmetric] c inr _ _ swap u [symmetric] this "3.prems"(2)] w
          have "parse_deps n' m t rest ?h2 s3 = Some q" by simp
          with gate Inr b c' inr w swap u show ?thesis by simp
        qed
      qed
    qed
  qed
qed

lemma expand_mono:
  shows "expand n deps t h = Some h' \<Longrightarrow> n \<le> n' \<Longrightarrow> expand n' deps t h = Some h'"
    and "expand_each n deps t es h = Some h' \<Longrightarrow> n \<le> n' \<Longrightarrow>
      expand_each n' deps t es h = Some h'"
proof (induction n deps t h and n deps t es h arbitrary: h' n' and h' n'
    rule: expand_expand_each.induct)
  case (1 n deps t h)
  from "1.IH" [of h' n'] "1.prems" show ?case by simp
next
  case (2 n deps t h)
  then show ?case by simp
next
  case (3 n deps t a depTree rest h)
  show ?case
  proof (cases "- 1 < indexOf (currentValue (h ! t)) a")
    case False
    with "3.prems" "3.IH"(4) [OF False _ "3.prems"(2), of h'] show ?thesis
      by simp
  next
    case True
    let ?h1 = "add_dependency t a depTree h"
    show ?thesis
    proof (cases "dependencies (?h1 ! depTree) \<noteq> []")
      case False
      with True "3.prems" "3.IH"(3) [OF True refl False _ "3.prems"(2), of h'] show ?thesis
        by (simp add: Let_def)
    next
      case nonempty: True
      from "3.prems"(1) True nonempty obtain n0 h2 where n: "n = Suc n0"
        and h2: "expand n0 deps depTree ?h1 = Some h2"
        and r: "expand_each n deps t rest h2 = Some h'"
        by (cases n) (auto simp: Let_def split: option.splits)
      from n "3.prems"(2) obtain n0' where n': "n' = Suc n0'" and le: "n0 \<le> n0'"
        by (cases n') auto
      from "3.IH"(1) [OF True refl nonempty n h2 le]
      have 1: "expand n0' deps depTree ?h1 = Some h2" .
      from "3.IH"(2) [OF True refl nonempty n h2 r "3.prems"(2)]
      have 2: "expand_each n' deps t rest h2 = Some h'" .
      from True nonempty n' 1 2 show ?thesis
        by (simp add: Let_def)
    qed
  qed
qed

lemma expand_trees_mono:
  "expand_trees n mem ts h = Some h' \<Longrightarrow> n \<le> n' \<Longrightarrow> expand_trees n' mem ts h = Some h'"
proof (induction ts arbitrary: h)
  case Nil
  then show ?case by simp
next
  case (Cons t ts)
  from Cons.prems(1) obtain h1 where h1: "expand n mem t h = Some h1"
    and r: "expand_trees n mem ts h1 = Some h'"
    by (auto split: option.splits)
  from expand_mono(1) [OF h1 Cons.prems(2)] Cons.IH [OF r Cons.prems(2)] show ?case
    by simp
qed

lemma compile_each_mono:
  fixes m :: "('v, 's) AbstractMachine"
  shows "compile_each n m ts h s a = Some r \<Longrightarrow> n \<le> n' \<Longrightarrow>
    compile_each n' m ts h s a = Some r"
proof (induction ts arbitrary: h s a)
  case Nil
  then show ?case by simp
next
  case (Cons t ts)
  from Cons.prems(1) obtain c where c: "parseTree n m t h s = Some c"
    by (auto split: option.splits)
  from parse_mono(1) [OF c Cons.prems(2)] have c': "parseTree n' m t h s = Some c" .
  show ?case
  proof (cases c)
    case (Inl e)
    with c c' Cons.prems(1) show ?thesis by simp
  next
    case (Inr w)
    then obtain v h1 s1 where w: "w = (v, (h1, s1))" by (cases w) auto
    let ?a = "a\<lparr>cache := (cache a)(input (h1 ! t) \<mapsto> v)\<rparr>"
    from Cons.prems(1) c Inr w have "compile_each n m ts h1 s1 ?a = Some r" by simp
    from Cons.IH [OF this Cons.prems(2)] c' Inr w show ?thesis by simp
  qed
qed

lemma compile_mono:
  fixes m :: "('v, 's) AbstractMachine"
  assumes "compile n m s a = Some r" and "n \<le> n'"
  shows "compile n' m s a = Some r"
proof -
  let ?a0 = "expandMacro (a\<lparr>cache := Map.empty\<rparr>)"
  from assms(1) obtain h where h: "scanDependencyTree n ?a0 = Some h"
    and r: "compile_each n m [0..<length h] h s ?a0 = Some r"
    by (auto simp: compile_def Let_def split: option.splits)
  from h have "expand_trees n (scan_mem 0 (program ?a0) []) [0..<length (program ?a0)]
      (scan_trees (program ?a0)) = Some h"
    by (simp add: scanDependencyTree_def)
  from expand_trees_mono [OF this assms(2)] have "scanDependencyTree n' ?a0 = Some h"
    by (simp add: scanDependencyTree_def)
  with compile_each_mono [OF r assms(2)] show ?thesis
    by (simp add: compile_def Let_def)
qed

section \<open>Termination of compile\<close>

lemma shape_length:
  assumes "shape h' = shape h"
  shows "length h' = length h"
proof -
  have "length (shape h') = length (shape h)" using assms by simp
  then show ?thesis by (simp add: shape_def)
qed


lemma shape_nth:
  assumes "shape h' = shape h" and "t < length h"
  shows "ref (h' ! t) = ref (h ! t)" and "input (h' ! t) = input (h ! t)"
    and "dependencies (h' ! t) = dependencies (h ! t)"
proof -
  have "shape h' ! t = shape h ! t" using assms(1) by simp
  moreover have "t < length h'" using shape_length [OF assms(1)] assms(2) by simp
  ultimately have "(ref (h' ! t), input (h' ! t), dependencies (h' ! t))
      = (ref (h ! t), input (h ! t), dependencies (h ! t))"
    using assms(2) by (simp add: shape_def)
  then show "ref (h' ! t) = ref (h ! t)" and "input (h' ! t) = input (h ! t)"
    and "dependencies (h' ! t) = dependencies (h ! t)"
    by simp_all
qed

lemma shape_ranked:
  assumes "shape h' = shape h" and "ranked_store rank h"
  shows "ranked_store rank h'"
  unfolding ranked_store_def
proof (intro allI impI)
  fix t
  assume "t < length h'"
  then have t: "t < length h" using shape_length [OF assms(1)] by simp
  have "dependencies (h' ! t) = dependencies (h ! t)"
    using assms(1) t by (rule shape_nth(3))
  with assms(2) t shape_length [OF assms(1)]
  show "\<forall>(k, d)\<in>set (dependencies (h' ! t)). d < length h' \<and> rank d < rank t"
    by (simp add: ranked_store_def)
qed

lemma shape_update: "shape (update t v h) = shape h"
  unfolding shape_def update_def
proof (rule nth_equalityI)
  show "length (map (\<lambda>x. (ref x, input x, dependencies x)) (h[t := (h ! t)\<lparr>currentValue := v\<rparr>]))
      = length (map (\<lambda>x. (ref x, input x, dependencies x)) h)"
    by simp
next
  fix i
  assume "i < length (map (\<lambda>x. (ref x, input x, dependencies x)) (h[t := (h ! t)\<lparr>currentValue := v\<rparr>]))"
  then have "i < length h" by simp
  then show "map (\<lambda>x. (ref x, input x, dependencies x)) (h[t := (h ! t)\<lparr>currentValue := v\<rparr>]) ! i
      = map (\<lambda>x. (ref x, input x, dependencies x)) h ! i"
    by (cases "i = t") simp_all
qed

lemma parse_terminates:
  fixes m :: "('v, 's) AbstractMachine"
  shows "t < length h \<Longrightarrow> ranked_store rank h \<Longrightarrow> rank t \<le> n \<Longrightarrow>
      \<exists>r. parseTree n m t h s = Some r \<and> (\<forall>v h' s'. r = Inr (v, h', s') \<longrightarrow> shape h' = shape h)"
    and "t < length h \<Longrightarrow> ranked_store rank h \<Longrightarrow>
      (\<forall>(k, d)\<in>set deps. d < length h \<and> rank d < n) \<Longrightarrow>
      \<exists>r. parse_deps n m t deps h s = Some r \<and> (\<forall>h' s'. r = Inr (h', s') \<longrightarrow> shape h' = shape h)"
proof (induction n m t h s and n m t deps h s rule: parseTree_parse_deps.induct)
  case (1 n m t h s)
  from "1.prems" have "\<forall>(k, d)\<in>set (dependencies (h ! t)). d < length h \<and> rank d < n"
    by (fastforce simp: ranked_store_def)
  from "1.IH" [OF "1.prems"(1,2) this] obtain r where
    r: "parse_deps n m t (dependencies (h ! t)) h s = Some r"
      "\<forall>h' s'. r = Inr (h', s') \<longrightarrow> shape h' = shape h"
    by blast
  show ?case
  proof (cases r)
    case (Inl e)
    with r show ?thesis by (simp add: parseTree.simps)
  next
    case (Inr p)
    then obtain h1 s1 where p: "r = Inr (h1, s1)" by (cases p) auto
    with r have "shape h1 = shape h" by simp
    with r(1) p show ?thesis
      by (cases "fold_tree m t h1 s1") (auto simp: parseTree.simps)
  qed
next
  case (2 n m t h s)
  then show ?case by simp
next
  case (3 n m t k dep rest h s)
  from "3.prems" have d: "dep < length h" "rank dep < n"
    and rest: "\<forall>(k, d)\<in>set rest. d < length h \<and> rank d < n"
    by auto
  show ?case
  proof (cases "resolves (currentValue (h ! t)) k")
    case False
    with "3.IH"(3) [OF _ "3.prems"(1,2) rest] show ?thesis
      by (simp add: resolves_def)
  next
    case True
    then have gate: "isFunctionArgument (currentValue (h ! t)) k \<or>
        isInBetweenBraces (currentValue (h ! t)) k"
      by (simp add: resolves_def)
    show ?thesis
    proof (cases "read_m m k s")
      case (Inl e)
      with gate show ?thesis by simp
    next
      case (Inr b)
      then obtain r s1 where b: "b = (r, s1)" by (cases b) auto
      let ?child = "case r of
             Some v \<Rightarrow> Some (Inr (Some v, h, s1))
           | None \<Rightarrow> (case n of 0 \<Rightarrow> None | Suc n' \<Rightarrow> parseTree n' m dep h s1)"
      have "\<exists>c. ?child = Some c \<and> (\<forall>v h' s'. c = Inr (v, h', s') \<longrightarrow> shape h' = shape h)"
      proof (cases r)
        case (Some v)
        then show ?thesis by simp
      next
        case None
        from d(2) obtain n' where n: "n = Suc n'" by (cases n) auto
        with d(2) have "rank dep \<le> n'" by simp
        from "3.IH"(1) [OF gate Inr b [symmetric] None n d(1) "3.prems"(2) this]
        show ?thesis using None n by simp
      qed
      then obtain c where c: "?child = Some c"
        "\<forall>v h' s'. c = Inr (v, h', s') \<longrightarrow> shape h' = shape h"
        by blast
      show ?thesis
      proof (cases c)
        case (Inl e)
        with gate Inr b c(1) show ?thesis by simp
      next
        case inr: (Inr q)
        then obtain out h1 s2 where q: "q = (out, (h1, s2))" by (cases q) auto
        with c(2) inr have sh1: "shape h1 = shape h" by simp
        show ?thesis
        proof (cases "swap_m m k (currentValue (h1 ! t)) out s2")
          case (Inl e)
          with gate Inr b c(1) inr q show ?thesis by simp
        next
          case swap: (Inr w)
          then obtain value0 s3 where w: "w = (value0, s3)" by (cases w) auto
          let ?h2 = "update t (if value0 \<noteq> [] then value0
                else replace (currentValue (h1 ! t)) k (currentValue (h1 ! dep))) h1"
          have sh2: "shape ?h2 = shape h" using sh1 by (simp add: shape_update)
          have len: "length ?h2 = length h" using sh2 by (rule shape_length)
          have "\<exists>r. parse_deps n m t rest ?h2 s3 = Some r
               \<and> (\<forall>h' s'. r = Inr (h', s') \<longrightarrow> shape h' = shape ?h2)"
          proof (rule "3.IH"(2) [OF gate Inr b [symmetric] c(1) inr _ _ swap w [symmetric]])
            show "(out, (h1, s2)) = q" using q by simp
            show "(h1, s2) = (h1, s2)" ..
            show "t < length ?h2" using len "3.prems"(1) by simp
            show "ranked_store rank ?h2" using sh2 "3.prems"(2) by (rule shape_ranked)
            show "\<forall>(k, d)\<in>set rest. d < length ?h2 \<and> rank d < n" using rest len by simp
          qed
          with sh2 gate Inr b c(1) inr q swap w show ?thesis
            by simp
        qed
      qed
    qed
  qed
qed


lemma texts_length:
  assumes "texts h' = texts h"
  shows "length h' = length h"
proof -
  have "length (texts h') = length (texts h)" using assms by simp
  then show ?thesis by (simp add: texts_def)
qed

lemma texts_nth:
  assumes "texts h' = texts h" and "t < length h"
  shows "ref (h' ! t) = ref (h ! t)" and "input (h' ! t) = input (h ! t)"
    and "currentValue (h' ! t) = currentValue (h ! t)"
proof -
  have "texts h' ! t = texts h ! t" using assms(1) by simp
  moreover have "t < length h'" using texts_length [OF assms(1)] assms(2) by simp
  ultimately have "(ref (h' ! t), input (h' ! t), currentValue (h' ! t))
      = (ref (h ! t), input (h ! t), currentValue (h ! t))"
    using assms(2) by (simp add: texts_def)
  then show "ref (h' ! t) = ref (h ! t)" and "input (h' ! t) = input (h ! t)"
    and "currentValue (h' ! t) = currentValue (h ! t)"
    by simp_all
qed

lemma texts_ranked_mem:
  assumes "texts h' = texts h" and "ranked_mem rank h mem"
  shows "ranked_mem rank h' mem"
  unfolding ranked_mem_def
proof (intro ballI, clarify, intro conjI allI impI)
  fix a d
  assume ad: "(a, d) \<in> set mem"
  with assms(2) have d: "d < length h"
    and r: "\<forall>t<length h. - 1 < indexOf (currentValue (h ! t)) a \<longrightarrow> rank d < rank t"
    by (auto simp: ranked_mem_def)
  show "d < length h'" using d texts_length [OF assms(1)] by simp
  fix t
  assume "t < length h'" and occ: "- 1 < indexOf (currentValue (h' ! t)) a"
  then have t: "t < length h" using texts_length [OF assms(1)] by simp
  with occ texts_nth(3) [OF assms(1) t] r show "rank d < rank t" by simp
qed

lemma texts_add_dependency: "texts (add_dependency t a d h) = texts h"
  unfolding texts_def add_dependency_def
proof (rule nth_equalityI)
  show "length (map (\<lambda>x. (ref x, input x, currentValue x))
           (h[t := (h ! t)\<lparr>dependencies := obj_set (dependencies (h ! t)) a d\<rparr>]))
      = length (map (\<lambda>x. (ref x, input x, currentValue x)) h)"
    by simp
next
  fix i
  assume "i < length (map (\<lambda>x. (ref x, input x, currentValue x))
           (h[t := (h ! t)\<lparr>dependencies := obj_set (dependencies (h ! t)) a d\<rparr>]))"
  then have "i < length h" by simp
  then show "map (\<lambda>x. (ref x, input x, currentValue x))
           (h[t := (h ! t)\<lparr>dependencies := obj_set (dependencies (h ! t)) a d\<rparr>]) ! i
      = map (\<lambda>x. (ref x, input x, currentValue x)) h ! i"
    by (cases "i = t") simp_all
qed

lemma set_AList_update: "set (AList.update k v al) \<subseteq> insert (k, v) (set al)"
  by (induction al) auto

lemma set_insert_index: "set (insert_index i k v obj) = insert (k, v) (set obj)"
  by (induction obj) (auto split: option.splits)

lemma set_obj_set: "set (obj_set obj k v) \<subseteq> insert (k, v) (set obj)"
  using set_AList_update [of k v obj]
  by (auto simp: obj_set_def set_insert_index split: option.splits)

lemma ranked_add_dependency:
  assumes "ranked_store rank h" and "t < length h" and "d < length h" and "rank d < rank t"
  shows "ranked_store rank (add_dependency t a d h)"
  unfolding ranked_store_def
proof (intro allI impI)
  fix u
  assume "u < length (add_dependency t a d h)"
  then have u: "u < length h" by (simp add: add_dependency_def)
  show "\<forall>(k, e)\<in>set (dependencies (add_dependency t a d h ! u)).
          e < length (add_dependency t a d h) \<and> rank e < rank u"
  proof (cases "u = t")
    case True
    have "set (dependencies (add_dependency t a d h ! t))
        \<subseteq> insert (a, d) (set (dependencies (h ! t)))"
      using assms(2) set_obj_set [of "dependencies (h ! t)" a d]
      by (simp add: add_dependency_def)
    moreover have "\<forall>(k, e)\<in>set (dependencies (h ! t)). e < length h \<and> rank e < rank t"
      using assms(1,2) by (simp add: ranked_store_def)
    ultimately show ?thesis
      using True assms(3,4) by (auto simp: add_dependency_def)
  next
    case False
    with assms(1) u show ?thesis
      by (simp add: add_dependency_def ranked_store_def)
  qed
qed

lemma expand_terminates:
  shows "t < length h \<Longrightarrow> ranked_store rank h \<Longrightarrow> ranked_mem rank h deps \<Longrightarrow> rank t \<le> n \<Longrightarrow>
      \<exists>h'. expand n deps t h = Some h' \<and> texts h' = texts h \<and> ranked_store rank h'"
    and "t < length h \<Longrightarrow> ranked_store rank h \<Longrightarrow> ranked_mem rank h deps \<Longrightarrow>
      set es \<subseteq> set deps \<Longrightarrow> rank t \<le> n \<Longrightarrow>
      \<exists>h'. expand_each n deps t es h = Some h' \<and> texts h' = texts h \<and> ranked_store rank h'"
proof (induction n deps t h and n deps t es h rule: expand_expand_each.induct)
  case (1 n deps t h)
  from "1.IH" [OF "1.prems"(1,2,3) _ "1.prems"(4)] show ?case by simp
next
  case (2 n deps t h)
  then show ?case by simp
next
  case (3 n deps t a depTree rest h)
  from "3.prems"(4) have ad: "(a, depTree) \<in> set deps" and rest: "set rest \<subseteq> set deps"
    by auto
  show ?case
  proof (cases "- 1 < indexOf (currentValue (h ! t)) a")
    case False
    with "3.IH"(4) [OF False "3.prems"(1,2,3) rest "3.prems"(5)] show ?thesis
      by simp
  next
    case True
    let ?h1 = "add_dependency t a depTree h"
    from ad "3.prems"(1,3) True have d: "depTree < length h" "rank depTree < rank t"
      by (auto simp: ranked_mem_def)
    have tx1: "texts ?h1 = texts h" by (rule texts_add_dependency)
    have len1: "length ?h1 = length h" by (simp add: add_dependency_def)
    have rs1: "ranked_store rank ?h1"
      using "3.prems"(2,1) d by (rule ranked_add_dependency)
    have rm1: "ranked_mem rank ?h1 deps"
      using tx1 "3.prems"(3) by (rule texts_ranked_mem)
    show ?thesis
    proof (cases "dependencies (?h1 ! depTree) \<noteq> []")
      case False
      from "3.IH"(3) [OF True refl False _ rs1 rm1 rest "3.prems"(5)] len1 "3.prems"(1)
      obtain h' where "expand_each n deps t rest ?h1 = Some h'" "texts h' = texts ?h1"
        "ranked_store rank h'"
        by auto
      with True False tx1 show ?thesis by (simp add: Let_def)
    next
      case nonempty: True
      from d(2) "3.prems"(5) obtain n' where n: "n = Suc n'" by (cases n) auto
      with d(2) "3.prems"(5) have rd: "rank depTree \<le> n'" by simp
      from "3.IH"(1) [OF True refl nonempty n _ rs1 rm1 rd] d(1) len1
      obtain h2 where h2: "expand n' deps depTree ?h1 = Some h2" "texts h2 = texts ?h1"
        "ranked_store rank h2"
        by auto
      have len2: "length h2 = length h" using texts_length [OF h2(2)] len1 by simp
      have rm2: "ranked_mem rank h2 deps" using h2(2) rm1 by (rule texts_ranked_mem)
      from "3.IH"(2) [OF True refl nonempty n h2(1) _ h2(3) rm2 rest "3.prems"(5)] len2 "3.prems"(1)
      obtain h' where "expand_each n deps t rest h2 = Some h'" "texts h' = texts h2"
        "ranked_store rank h'"
        by auto
      with True nonempty n h2(1,2) tx1 show ?thesis by (simp add: Let_def)
    qed
  qed
qed


lemma scan_mem_bound:
  "(a, d) \<in> set (scan_mem i p mem) \<Longrightarrow> (a, d) \<in> set mem \<or> (i \<le> d \<and> d < i + length p)"
proof (induction p arbitrary: i mem)
  case Nil
  then show ?case by simp
next
  case (Cons x p)
  obtain v k r where x: "x = (v, k, r)" by (cases x) auto
  let ?mem = "if truthy r then obj_set mem (the r) i else mem"
  from Cons.prems x have "(a, d) \<in> set (scan_mem (Suc i) p ?mem)" by simp
  from Cons.IH [OF this] have "(a, d) \<in> set ?mem \<or> (Suc i \<le> d \<and> d < Suc i + length p)" .
  moreover have "set ?mem \<subseteq> insert (the r, i) (set mem)"
    using set_obj_set [of mem "the r" i] by auto
  ultimately show ?case by auto
qed

lemma scan_trees_nth:
  "t < length p \<Longrightarrow> scan_trees p ! t = new_Tree (fst (p ! t)) (fst (snd (p ! t))) (snd (snd (p ! t)))"
  by (simp add: scan_trees_def case_prod_unfold)

lemma ranked_scan_trees: "ranked_store rank (scan_trees p)"
  by (simp add: ranked_store_def scan_trees_def new_Tree_def case_prod_unfold)

lemma ranked_scan_mem:
  assumes "ranked rank p"
  shows "ranked_mem rank (scan_trees p) (scan_mem 0 p [])"
  unfolding ranked_mem_def
proof (intro ballI, clarify, intro conjI allI impI)
  fix a d
  assume ad: "(a, d) \<in> set (scan_mem 0 p [])"
  from scan_mem_bound [OF this] show "d < length (scan_trees p)"
    by (simp add: scan_trees_def)
  fix t
  assume "t < length (scan_trees p)" and occ: "- 1 < indexOf (currentValue (scan_trees p ! t)) a"
  then have t: "t < length p" by (simp add: scan_trees_def)
  with assms have "list_all (\<lambda>(a, d). - 1 < indexOf (fst (p ! t)) a \<longrightarrow> rank d < rank t)
      (scan_mem 0 p [])"
    by (simp add: ranked_def list_all_iff)
  with ad have "- 1 < indexOf (fst (p ! t)) a \<longrightarrow> rank d < rank t"
    by (auto simp: list_all_iff)
  with occ t show "rank d < rank t"
    by (simp add: scan_trees_nth new_Tree_def)
qed

lemma expand_trees_terminates:
  "\<forall>t\<in>set ts. t < length h \<and> rank t \<le> n \<Longrightarrow> ranked_store rank h \<Longrightarrow>
     ranked_mem rank h mem \<Longrightarrow>
     \<exists>h'. expand_trees n mem ts h = Some h' \<and> texts h' = texts h \<and> ranked_store rank h'"
proof (induction ts arbitrary: h)
  case Nil
  then show ?case by simp
next
  case (Cons t ts)
  from Cons.prems(1) have t: "t < length h" "rank t \<le> n" by simp_all
  from expand_terminates(1) [OF t(1) Cons.prems(2,3) t(2)]
  obtain h1 where h1: "expand n mem t h = Some h1" "texts h1 = texts h" "ranked_store rank h1"
    by blast
  have "\<forall>t\<in>set ts. t < length h1 \<and> rank t \<le> n"
    using Cons.prems(1) texts_length [OF h1(2)] by simp
  from Cons.IH [OF this h1(3) texts_ranked_mem [OF h1(2) Cons.prems(3)]]
  obtain h' where "expand_trees n mem ts h1 = Some h'" "texts h' = texts h1"
    "ranked_store rank h'"
    by blast
  with h1 show ?case by simp
qed

lemma scanDependencyTree_terminates:
  assumes "ranked rank (program a)" and "\<forall>t<length (program a). rank t \<le> n"
  shows "\<exists>h. scanDependencyTree n a = Some h \<and> texts h = texts (scan_trees (program a))
    \<and> ranked_store rank h"
  unfolding scanDependencyTree_def
proof (rule expand_trees_terminates)
  show "\<forall>t\<in>set [0..<length (program a)]. t < length (scan_trees (program a)) \<and> rank t \<le> n"
    using assms(2) by (simp add: scan_trees_def)
  show "ranked_store rank (scan_trees (program a))" by (rule ranked_scan_trees)
  show "ranked_mem rank (scan_trees (program a)) (scan_mem 0 (program a) [])"
    using assms(1) by (rule ranked_scan_mem)
qed

lemma compile_each_terminates:
  fixes m :: "('v, 's) AbstractMachine"
  shows "\<forall>t\<in>set ts. t < length h \<and> rank t \<le> n \<Longrightarrow> ranked_store rank h \<Longrightarrow>
     \<exists>r. compile_each n m ts h s a = Some r
       \<and> (\<forall>a' s'. r = Inr (a', s') \<longrightarrow>
             dom (cache a') = dom (cache a) \<union> (\<lambda>t. input (h ! t)) ` set ts)"
proof (induction ts arbitrary: h s a)
  case Nil
  then show ?case by simp
next
  case (Cons t ts)
  from Cons.prems(1) have t: "t < length h" "rank t \<le> n" by simp_all
  from parse_terminates(1) [OF t(1) Cons.prems(2) t(2), of m s]
  obtain r where r: "parseTree n m t h s = Some r"
    "\<forall>v h' s'. r = Inr (v, h', s') \<longrightarrow> shape h' = shape h"
    by blast
  show ?case
  proof (cases r)
    case (Inl e)
    with r(1) show ?thesis by simp
  next
    case (Inr q)
    then obtain v h1 s1 where q: "r = Inr (v, h1, s1)" by (cases q) auto
    with r(2) have sh: "shape h1 = shape h" by simp
    let ?a = "a\<lparr>cache := (cache a)(input (h1 ! t) \<mapsto> v)\<rparr>"
    have "\<forall>t\<in>set ts. t < length h1 \<and> rank t \<le> n"
      using Cons.prems(1) shape_length [OF sh] by simp
    from Cons.IH [OF this shape_ranked [OF sh Cons.prems(2)], of s1 ?a]
    obtain r' where r': "compile_each n m ts h1 s1 ?a = Some r'"
      "\<forall>a' s'. r' = Inr (a', s') \<longrightarrow>
          dom (cache a') = dom (cache ?a) \<union> (\<lambda>t. input (h1 ! t)) ` set ts"
      by blast
    have "(\<lambda>t. input (h1 ! t)) ` set ts = (\<lambda>t. input (h ! t)) ` set ts"
      using Cons.prems(1) shape_nth(2) [OF sh] by (intro image_cong) auto
    moreover have "input (h1 ! t) = input (h ! t)"
      using shape_nth(2) [OF sh t(1)] .
    ultimately show ?thesis
      using r(1) q r' by auto
  qed
qed

lemma mutual_expand_diverges:
  "expand n [(''a'', 0), (''b'', 1)] 0 mutual_store = None
   \<and> expand n [(''a'', 0), (''b'', 1)] 1 mutual_store = None"
proof (induction n)
  case 0
  show ?case
    by (simp add: mutual_store_def tree_defs string_defs)
next
  case (Suc n)
  then show ?case
    by (simp add: mutual_store_def tree_defs string_defs)
qed

lemma mutual_scan_diverges:
  "scanDependencyTree n (build mutual [] :: 'n Accumulator Abstract) = None"
proof -
  have "expand_trees n [(''a'', 0), (''b'', 1)] [0, 1]
      [new_Tree ''b'' ''b'' (Some ''a''), new_Tree ''a'' ''a'' (Some ''b'')] = None"
  proof (cases n)
    case 0
    then show ?thesis
      by (simp add: tree_defs string_defs)
  next
    case (Suc n')
    with mutual_expand_diverges [of n'] show ?thesis
      by (simp add: mutual_store_def tree_defs string_defs)
  qed
  then show ?thesis
    by (simp add: scanDependencyTree_def build_def mutual_def scan_trees_def tree_defs upt_rec)
qed

text \<open>
  C1, as the code has it. When the lines of the program, as the macros leave them,
  can be ranked so that a line whose text contains a publish name ranks above the line
  published under that name, \<open>compile\<close> terminates for every machine: under every
  depth bound that no rank exceeds it has one and the same outcome, which is to return
  or to throw what an operation of the machine throws. When it returns, the keys of the
  cache are the display keys of the program lines. Without such a ranking it need not terminate, also when no line contains its own
  publish name: for two lines that contain the name of each other \<open>expand\<close> never
  returns. Two lines with one display key share one entry of the cache.
\<close>

theorem compile_terminates:
  fixes m :: "('v, 's) AbstractMachine"
  assumes "ranked rank (program (expandMacro a))"
    and "\<forall>t<length (program a). rank t \<le> n"
  shows "\<exists>r. (\<forall>n'\<ge>n. compile n' m s a = Some r)
    \<and> (\<forall>a' s'. r = Inr (a', s') \<longrightarrow> dom (cache a') = set (map (\<lambda>(v, i, r). i) (program a)))"
proof -
  let ?a0 = "expandMacro (a\<lparr>cache := Map.empty\<rparr>)"
  have p0: "program ?a0 = program (expandMacro a)"
    by (simp add: expandMacro_def)
  have len0: "length (program ?a0) = length (program a)"
    by (simp add: expandMacro_def)
  from scanDependencyTree_terminates [of rank ?a0 n] assms p0 len0
  obtain h where h: "scanDependencyTree n ?a0 = Some h"
    "texts h = texts (scan_trees (program ?a0))" "ranked_store rank h"
    by auto
  have len: "length h = length (program a)"
    using texts_length [OF h(2)] len0 by (simp add: scan_trees_def)
  have inp: "input (h ! t) = fst (snd (program a ! t))" if "t < length (program a)" for t
  proof -
    from that len0 have t: "t < length (scan_trees (program ?a0))"
      by (simp add: scan_trees_def)
    from texts_nth(2) [OF h(2) t] that show ?thesis
      by (simp add: scan_trees_def expandMacro_def case_prod_unfold new_Tree_def)
  qed
  have "\<forall>t\<in>set [0..<length h]. t < length h \<and> rank t \<le> n"
    using assms(2) len by simp
  from compile_each_terminates [OF this h(3), of m s ?a0]
  obtain r where r: "compile_each n m [0..<length h] h s ?a0 = Some r"
    "\<forall>a' s'. r = Inr (a', s') \<longrightarrow>
       dom (cache a') = dom (cache ?a0) \<union> (\<lambda>t. input (h ! t)) ` set [0..<length h]"
    by blast
  have "(\<lambda>t. input (h ! t)) ` set [0..<length h] = set (map (\<lambda>(v, i, r). i) (program a))"
  proof -
    have "(\<lambda>t. input (h ! t)) ` set [0..<length h] = (\<lambda>t. fst (snd (program a ! t))) ` {..<length (program a)}"
      using inp len by (intro image_cong) auto
    also have "\<dots> = (\<lambda>x. fst (snd x)) ` ((!) (program a) ` {..<length (program a)})"
      by (simp add: image_image)
    also have "(!) (program a) ` {..<length (program a)} = set (program a)"
      by (force simp: in_set_conv_nth image_iff)
    also have "(\<lambda>x. fst (snd x)) ` set (program a) = set (map (\<lambda>x. fst (snd x)) (program a))"
      by simp
    finally show ?thesis by (simp add: case_prod_unfold)
  qed
  moreover have "dom (cache ?a0) = {}" by (simp add: expandMacro_def)
  ultimately have d: "\<forall>a' s'. r = Inr (a', s') \<longrightarrow>
      dom (cache a') = set (map (\<lambda>(v, i, r). i) (program a))"
    using r(2) by simp
  have "compile n m s a = Some r"
    using h(1) r(1) by (simp add: compile_def Let_def)
  then have "\<forall>n'\<ge>n. compile n' m s a = Some r"
    by (intro allI impI) (rule compile_mono)
  with d show ?thesis by blast
qed

theorem compile_terminates_witness:
  "(case compile 2 (createInterpreter int_ops tracing) new_Interpreter (build src1 []) of
      Some (Inr (a', s')) \<Rightarrow> dom (cache a') = {''m: {}'', ''t: s: {r1}'', ''a: r2''}
    | _ \<Rightarrow> False)"
proof -
  let ?m = "createInterpreter int_ops tracing"
  let ?a = "build src1 [] :: int Accumulator Abstract"
  obtain a' s' where c: "compile 2 ?m new_Interpreter ?a = Some (Inr (a', s'))"
    by (simp add: src1_def tree_defs abstract_defs interp_defs string_defs token_defs tracing_def
        upt_rec parseTree.simps)
  have "ranked (\<lambda>t. t) (program (expandMacro ?a))"
    by (simp add: ranked_def src1_def abstract_defs tree_defs string_defs upt_rec)
  moreover have "\<forall>t<length (program ?a). t \<le> 2"
    by (simp add: src1_def build_def)
  ultimately have "\<exists>r. (\<forall>n'\<ge>2. compile n' ?m new_Interpreter ?a = Some r)
    \<and> (\<forall>a' s'. r = Inr (a', s') \<longrightarrow> dom (cache a') = set (map (\<lambda>(v, i, r). i) (program ?a)))"
    by (rule compile_terminates)
  then obtain r where all: "\<forall>n'\<ge>2. compile n' ?m new_Interpreter ?a = Some r"
    and keys: "\<forall>a' s'. r = Inr (a', s') \<longrightarrow>
      dom (cache a') = set (map (\<lambda>(v, i, r). i) (program ?a))"
    by blast
  from all have "compile 2 ?m new_Interpreter ?a = Some r"
    by blast
  with c keys have "dom (cache a') = set (map (\<lambda>(v, i, r). i) (program ?a))"
    by simp
  with c show ?thesis
    by (auto simp: src1_def build_def)
qed

theorem compile_terminates_counterexample:
  "\<not> self_referential (program (build mutual [] :: int Accumulator Abstract))
   \<and> (\<forall>n. compile n (createInterpreter int_ops tracing) new_Interpreter (build mutual []) = None)
   \<and> (case compile 0 (createInterpreter int_ops tracing) new_Interpreter
             \<lparr>cache = Map.empty, macro = [], program = [(''x'', ''k'', None), (''y'', ''k'', None)]\<rparr> of
        Some (Inr (a', s')) \<Rightarrow> dom (cache a') = {''k''}
      | _ \<Rightarrow> False)
   \<and> compile 1 (createInterpreter int_ops throwing) new_Interpreter
         (build [(''1'', Some ''a''), (''a'', None)] []) = Some (Inl TypeError)"
proof (intro conjI allI)
  show "\<not> self_referential (program (build mutual [] :: int Accumulator Abstract))"
    by (simp add: self_referential_def mutual_def build_def truthy_def string_defs)
next
  fix n
  show "compile n (createInterpreter int_ops tracing) new_Interpreter (build mutual []) = None"
    using mutual_scan_diverges [of n, where 'n = int]
    by (simp add: compile_def expandMacro_def expand_line_def build_def scanDependencyTree_def)
next
  show "(case compile 0 (createInterpreter int_ops tracing) new_Interpreter
             \<lparr>cache = Map.empty, macro = [], program = [(''x'', ''k'', None), (''y'', ''k'', None)]\<rparr> of
        Some (Inr (a', s')) \<Rightarrow> dom (cache a') = {''k''}
      | _ \<Rightarrow> False)"
    by (simp add: tree_defs abstract_defs interp_defs string_defs token_defs tracing_def upt_rec
        parseTree.simps)
next
  show "compile 1 (createInterpreter int_ops throwing) new_Interpreter
         (build [(''1'', Some ''a''), (''a'', None)] []) = Some (Inl TypeError)"
    by (simp add: tree_defs abstract_defs interp_defs string_defs token_defs throwing_def upt_rec
        parseTree.simps)
qed

section \<open>Errors of the resolver\<close>










end
